theory Spec2Isabelle
  imports Complex_Main "HOL-Library.Word" "HOL-Library.List_Lexorder"
begin

section \<open>Characters, strings and the character tables\<close>

text \<open>
  A Python \<open>str\<close> is a sequence of Unicode code points; a code point is modelled as a
  natural number and a string as a list of them. A \<open>bytes\<close> object is a list of 8-bit
  words.
\<close>

type_synonym uchar = nat
type_synonym ustring = "uchar list"
type_synonym byte = "8 word"
type_synonym bytes = "byte list"

text \<open>
  \<open>str.isspace\<close>, the class \<open>\s\<close> of \<open>re\<close> on \<open>str\<close> patterns and the characters
  removed by \<open>str.strip()\<close> are one and the same set in CPython
  (\<open>Py_UNICODE_ISSPACE\<close>): the code points listed here.
\<close>

definition isspace :: "uchar \<Rightarrow> bool" where
  "isspace c \<longleftrightarrow>
     (9 \<le> c \<and> c \<le> 13) \<or> (28 \<le> c \<and> c \<le> 32) \<or> c = 0x85 \<or> c = 0xA0 \<or> c = 0x1680 \<or>
     (0x2000 \<le> c \<and> c \<le> 0x200A) \<or> c = 0x2028 \<or> c = 0x2029 \<or> c = 0x202F \<or>
     c = 0x205F \<or> c = 0x3000"

text \<open>
  The remaining character predicates the module calls are tables of the Unicode
  character database: \<open>str.isalnum\<close>, \<open>str.isalpha\<close>, \<open>str.isprintable\<close> and
  \<open>unicodedata.category(ch).startswith(("L", "N"))\<close>. They are parameters of the model.
\<close>

record unicode_db =
  isalnum :: "uchar \<Rightarrow> bool"
  isalpha :: "uchar \<Rightarrow> bool"
  isprintable :: "uchar \<Rightarrow> bool"
  category_LN :: "uchar \<Rightarrow> bool"

text \<open>The comparison \<open>"\uAC00" <= ch <= "\uD7A3"\<close> and the class \<open>[A-Za-z]\<close>.\<close>

definition is_hangul :: "uchar \<Rightarrow> bool" where
  "is_hangul c \<longleftrightarrow> 0xAC00 \<le> c \<and> c \<le> 0xD7A3"

definition is_latin :: "uchar \<Rightarrow> bool" where
  "is_latin c \<longleftrightarrow> (0x41 \<le> c \<and> c \<le> 0x5A) \<or> (0x61 \<le> c \<and> c \<le> 0x7A)"

definition is_digit :: "uchar \<Rightarrow> bool" where
  "is_digit c \<longleftrightarrow> 0x30 \<le> c \<and> c \<le> 0x39"

section \<open>normalize_text\<close>

subsection \<open>The four clean-up substitutions\<close>

text \<open>\<open>raw.replace("\r\n", "\n")\<close>: non-overlapping occurrences, left to right.\<close>

fun replace_crlf :: "ustring \<Rightarrow> ustring" where
  "replace_crlf (a # b # cs) =
     (if a = 13 \<and> b = 10 then 10 # replace_crlf cs else a # replace_crlf (b # cs))"
| "replace_crlf cs = cs"

text \<open>\<open>.replace("\r", "\n")\<close> and \<open>.replace("\u0000", "")\<close>.\<close>

definition replace_cr :: "ustring \<Rightarrow> ustring" where
  "replace_cr cs = map (\<lambda>c. if c = 13 then 10 else c) cs"

definition remove_nul :: "ustring \<Rightarrow> ustring" where
  "remove_nul cs = filter (\<lambda>c. c \<noteq> 0) cs"

text \<open>The class \<open>[\x00-\x08\x0b\x0c\x0e-\x1f]\<close> and its removal.\<close>

definition is_control :: "uchar \<Rightarrow> bool" where
  "is_control c \<longleftrightarrow> c \<le> 8 \<or> c = 11 \<or> c = 12 \<or> (14 \<le> c \<and> c \<le> 31)"

definition remove_control :: "ustring \<Rightarrow> ustring" where
  "remove_control cs = filter (\<lambda>c. \<not> is_control c) cs"

text \<open>
  \<open>re.sub(r"\n{3,}", "\n\n", cleaned)\<close>: the quantifier is greedy, so a match is a maximal
  run of newlines of length at least three; shorter runs stay as they are.
\<close>

function collapse_newlines :: "ustring \<Rightarrow> ustring" where
  "collapse_newlines [] = []"
| "collapse_newlines (c # cs) =
     (if c = 10
      then (if 2 \<le> length (takeWhile (\<lambda>x. x = 10) cs)
            then [10, 10] else 10 # takeWhile (\<lambda>x. x = 10) cs)
           @ collapse_newlines (dropWhile (\<lambda>x. x = 10) cs)
      else c # collapse_newlines cs)"
  by pat_completeness auto
termination
  by (relation "measure length") (auto simp: length_dropWhile_le less_Suc_eq_le)

definition clean :: "ustring \<Rightarrow> ustring" where
  "clean raw = collapse_newlines (remove_control (remove_nul (replace_cr (replace_crlf raw))))"

subsection \<open>The allow-list\<close>

definition punctuation :: "uchar list" where
  "punctuation = [46, 44, 33, 63, 59, 58, 39, 34, 40, 41, 91, 93, 123, 125, 60, 62, 45,
     0x2013, 0x2014, 0x2026, 37, 38, 47, 43, 0x2022, 124, 35]"

definition is_allowed_char :: "unicode_db \<Rightarrow> uchar \<Rightarrow> bool" where
  "is_allowed_char db ch \<longleftrightarrow>
     (if isspace ch then True
      else if ch \<in> set punctuation then True
      else if 0x30 \<le> ch \<and> ch \<le> 0x39 then True
      else if (0x41 \<le> ch \<and> ch \<le> 0x5A) \<or> (0x61 \<le> ch \<and> ch \<le> 0x7A) then True
      else if 0xAC00 \<le> ch \<and> ch \<le> 0xD7A3 then True
      else if (0x1100 \<le> ch \<and> ch \<le> 0x11FF) \<or> (0x3130 \<le> ch \<and> ch \<le> 0x318F) then True
      else if (0x4E00 \<le> ch \<and> ch \<le> 0x9FFF) \<or> (0x3400 \<le> ch \<and> ch \<le> 0x4DBF) then True
      else if 0x3000 \<le> ch \<and> ch \<le> 0x303F then True
      else if 0x2010 \<le> ch \<and> ch \<le> 0x205E then True
      else category_LN db ch)"

subsection \<open>Lines\<close>

text \<open>\<open>cleaned.split("\n")\<close>: always at least one piece.\<close>

fun split_nl :: "ustring \<Rightarrow> ustring list" where
  "split_nl [] = [[]]"
| "split_nl (c # cs) =
     (if c = 10 then [] # split_nl cs
      else (case split_nl cs of [] \<Rightarrow> [[c]] | l # ls \<Rightarrow> (c # l) # ls))"

text \<open>\<open>sep.join(parts)\<close>.\<close>

fun join :: "'a list \<Rightarrow> 'a list list \<Rightarrow> 'a list" where
  "join sep [] = []"
| "join sep [x] = x"
| "join sep (x # y # ys) = x @ sep @ join sep (y # ys)"

text \<open>\<open>re.sub(r"\s+", " ", s)\<close>: every maximal run of whitespace becomes one space.\<close>

function collapse_ws :: "ustring \<Rightarrow> ustring" where
  "collapse_ws [] = []"
| "collapse_ws (c # cs) =
     (if isspace c then 32 # collapse_ws (dropWhile isspace cs) else c # collapse_ws cs)"
  by pat_completeness auto
termination
  by (relation "measure length") (auto simp: length_dropWhile_le less_Suc_eq_le)

text \<open>\<open>s.strip()\<close>: whitespace removed at both ends.\<close>

fun rstrip :: "ustring \<Rightarrow> ustring" where
  "rstrip [] = []"
| "rstrip (c # cs) = (if rstrip cs = [] \<and> isspace c then [] else c # rstrip cs)"

definition strip :: "ustring \<Rightarrow> ustring" where
  "strip s = rstrip (dropWhile isspace s)"

text \<open>
  The pattern of line 159: a character of the first class
  followed by any number of characters of the second; \<open>re.findall\<close> returns the
  non-overlapping matches from left to right, each one greedy.
\<close>

definition span_start :: "uchar \<Rightarrow> bool" where
  "span_start c \<longleftrightarrow> is_hangul c \<or> is_latin c \<or> is_digit c"

definition span_body :: "uchar \<Rightarrow> bool" where
  "span_body c \<longleftrightarrow> span_start c \<or> isspace c \<or> c \<in> set [46, 44, 33, 63, 0x2026, 40, 41, 45]"

function findall_spans :: "ustring \<Rightarrow> ustring list" where
  "findall_spans [] = []"
| "findall_spans (c # cs) =
     (if span_start c
      then (c # takeWhile span_body cs) # findall_spans (dropWhile span_body cs)
      else findall_spans cs)"
  by pat_completeness auto
termination
  by (relation "measure length") (auto simp: length_dropWhile_le less_Suc_eq_le)

text \<open>
  \<open>max(candidate_spans, key=len)\<close> on a non-empty list: the first element of the greatest
  length.
\<close>

fun max_by_len :: "ustring \<Rightarrow> ustring list \<Rightarrow> ustring" where
  "max_by_len best [] = best"
| "max_by_len best (s # ss) = max_by_len (if length best < length s then s else best) ss"

text \<open>
  The body of the loop over the lines, in two stages; \<open>None\<close> is \<open>continue\<close>.
  Lines 153 to 165: the filtered line and its longest span.
\<close>

definition best_span_of :: "unicode_db \<Rightarrow> ustring \<Rightarrow> ustring option" where
  "best_span_of db raw_line =
     (let filtered_line = strip (collapse_ws (filter (is_allowed_char db) raw_line)) in
      if filtered_line = [] then None
      else case findall_spans filtered_line of
        [] \<Rightarrow> None
      | s # ss \<Rightarrow>
          (let best_span = strip (max_by_len s ss) in
           if best_span = [] then None else Some best_span))"

text \<open>
  Lines 167 to 172: the two tests on the span; \<open>True\<close> when the span is kept. The test
  \<open>hangul_chars / alnum_chars < 0.2\<close> divides two counts in double precision; for counts
  below \<open>2 ^ 50\<close> it holds exactly when \<open>5 * hangul_chars < alnum_chars\<close>, which is what the
  model tests.
\<close>

definition quality_gate :: "unicode_db \<Rightarrow> ustring \<Rightarrow> bool" where
  "quality_gate db best_span =
     (let hangul_chars = length (filter is_hangul best_span);
          alnum_chars = length (filter (isalnum db) best_span) in
      if alnum_chars = 0 then False
      else if 5 * hangul_chars < alnum_chars \<and> \<not> list_ex is_latin best_span then False
      else True)"

definition process_line :: "unicode_db \<Rightarrow> ustring \<Rightarrow> ustring option" where
  "process_line db raw_line =
     (case best_span_of db raw_line of
        None \<Rightarrow> None
      | Some best_span \<Rightarrow> if quality_gate db best_span then Some best_span else None)"

definition sanitized_lines :: "unicode_db \<Rightarrow> ustring \<Rightarrow> ustring list" where
  "sanitized_lines db raw = List.map_filter (process_line db) (split_nl (clean raw))"

definition normalize_text :: "unicode_db \<Rightarrow> ustring \<Rightarrow> ustring" where
  "normalize_text db raw = join [10] (sanitized_lines db raw)"

subsection \<open>Predicates used to state the properties of the output\<close>

text \<open>Whitespace occurs only as single spaces, never two in a row.\<close>

fun single_spaced :: "ustring \<Rightarrow> bool" where
  "single_spaced [] = True"
| "single_spaced (c # cs) =
     ((isspace c \<longrightarrow> c = 32 \<and> (case cs of [] \<Rightarrow> True | d # _ \<Rightarrow> \<not> isspace d)) \<and>
      single_spaced cs)"

text \<open>The shape of a span after trimming, and of a line that the loop body returns.\<close>

definition span_shape :: "ustring \<Rightarrow> bool" where
  "span_shape l \<longleftrightarrow>
     (case l of [] \<Rightarrow> False | c # _ \<Rightarrow> span_start c) \<and> list_all span_body l \<and>
     single_spaced l \<and> rstrip l = l"

definition span_line :: "unicode_db \<Rightarrow> ustring \<Rightarrow> bool" where
  "span_line db l \<longleftrightarrow> span_shape l \<and> quality_gate db l"

text \<open>
  The alphabet of the spans: Hangul syllables, ASCII letters and digits, the space and
  the characters \<open>. , ! ? \<dots> ( ) -\<close>.
\<close>

definition span_char :: "uchar \<Rightarrow> bool" where
  "span_char c \<longleftrightarrow> is_hangul c \<or> is_latin c \<or> is_digit c \<or> c = 32 \<or>
     c \<in> set [46, 44, 33, 63, 0x2026, 40, 41, 45]"

subsection \<open>A fragment of the character tables\<close>

text \<open>
  The values of the four tables on the ASCII range, on the Hangul syllables and on
  U+FFFD (the replacement character: printable, not a letter). The examples below use
  characters of this range only.
\<close>

definition sample_db :: unicode_db where
  "sample_db =
     \<lparr> isalnum = (\<lambda>c. is_hangul c \<or> is_latin c \<or> is_digit c),
       isalpha = (\<lambda>c. is_hangul c \<or> is_latin c),
       isprintable = (\<lambda>c. (32 \<le> c \<and> c \<le> 126) \<or> is_hangul c \<or> c = 0xFFFD),
       category_LN = (\<lambda>c. is_hangul c \<or> is_latin c \<or> is_digit c) \<rparr>"

text \<open>The mostly-Hangul example line of the specification (fourteen Hangul syllables in four
  words), as code points.\<close>

definition hangul_sentence :: ustring where
  "hangul_sentence = [0xC548, 0xB155, 0xD558, 0xC138, 0xC694, 32, 0xC624, 0xB298, 0xC740, 32,
     0xC88B, 0xC740, 32, 0xB0A0, 0xC785, 0xB2C8, 0xB2E4]"

section \<open>smart_decode\<close>

subsection \<open>Codecs\<close>

text \<open>
  \<open>raw.decode(enc, **kw)\<close> calls a codec of the standard library. The codecs are a
  parameter of the model: for an encoding and an error mode they map the bytes to the
  decoded string, or to \<open>None\<close> when the codec raises.
\<close>

datatype encoding = UTF16LE | UTF16BE | UTF16 | CP949 | EUCKR | UTF8

datatype errors_mode = Strict | Replace

type_synonym codecs = "encoding \<Rightarrow> errors_mode \<Rightarrow> bytes \<Rightarrow> ustring option"

subsection \<open>The score\<close>

text \<open>
  \<open>_printable_ratio\<close>, \<open>_hangul_ratio\<close> and \<open>score_text\<close>, in exact rational arithmetic.
  The program computes them in double precision, where the quotients, the product with
  \<open>0.4\<close> and the sum are each rounded. The model of \<open>smart_decode\<close> below therefore takes
  the scoring function as a parameter \<open>sc\<close>: the rounded score and the exact one are
  both instances. A double lies above the literal \<open>1.2\<close> exactly when it lies above
  \<open>12/10\<close>, and below the literal \<open>0.9\<close> exactly when it lies below \<open>9/10\<close>, so the two
  thresholds are written as these rationals.
\<close>

definition printable_ratio :: "unicode_db \<Rightarrow> ustring \<Rightarrow> rat" where
  "printable_ratio db candidate =
     (if candidate = [] then 0
      else of_nat (length (filter (\<lambda>ch. isprintable db ch \<or> ch \<in> set [10, 9]) candidate))
           / of_nat (max 1 (length candidate)))"

definition hangul_ratio :: "unicode_db \<Rightarrow> ustring \<Rightarrow> rat" where
  "hangul_ratio db candidate =
     (if candidate = [] then 0
      else of_nat (length (filter is_hangul candidate))
           / of_nat (max 1 (length (filter (isalpha db) candidate))))"

definition score_text :: "unicode_db \<Rightarrow> ustring \<Rightarrow> rat" where
  "score_text db txt = printable_ratio db txt + (4 / 10) * hangul_ratio db txt"

subsection \<open>The loop over the candidates\<close>

text \<open>
  \<open>sample.count(b"\x00") > len(sample) * 0.2\<close> on the first 4096 bytes. The product is a
  double; for a length of at most 4096 the comparison holds exactly when five times the
  count exceeds the length.
\<close>

definition looks_utf16 :: "bytes \<Rightarrow> bool" where
  "looks_utf16 raw =
     (let sample = take 4096 raw in length sample < 5 * length (filter (\<lambda>b. b = 0) sample))"

definition wide_candidates :: "(encoding \<times> errors_mode) list" where
  "wide_candidates = [(UTF16LE, Strict), (UTF16BE, Strict), (UTF16, Replace)]"

definition legacy_candidates :: "(encoding \<times> errors_mode) list" where
  "legacy_candidates = [(CP949, Replace), (EUCKR, Replace), (UTF8, Replace)]"

text \<open>
  One \<open>for\<close> loop: either it returns a text at once, or it ends with the best text and
  score so far. The last component records, in order, the texts that were decoded and
  scored; the program does not compute it, it is there to state what was attempted.
\<close>

datatype scan_result = Return ustring | Fallthrough "ustring \<times> rat"

fun scan :: "codecs \<Rightarrow> (ustring \<Rightarrow> rat) \<Rightarrow> bytes \<Rightarrow> (encoding \<times> errors_mode) list \<Rightarrow>
    ustring \<times> rat \<Rightarrow> ustring list \<Rightarrow> scan_result \<times> ustring list" where
  "scan dec sc raw [] best seen = (Fallthrough best, seen)"
| "scan dec sc raw ((enc, kw) # rest) best seen =
     (case dec enc kw raw of
        None \<Rightarrow> scan dec sc raw rest best seen
      | Some txt \<Rightarrow>
          if 12 / 10 < sc txt then (Return txt, seen @ [txt])
          else scan dec sc raw rest (if snd best < sc txt then (txt, sc txt) else best)
                 (seen @ [txt]))"

text \<open>\<open>raw[::2]\<close>: the bytes at the even positions.\<close>

fun every_other :: "'a list \<Rightarrow> 'a list" where
  "every_other (a # b # rest) = a # every_other rest"
| "every_other xs = xs"

definition smart_decode_run :: "codecs \<Rightarrow> (ustring \<Rightarrow> rat) \<Rightarrow> bytes \<Rightarrow> ustring \<times> ustring list" where
  "smart_decode_run dec sc raw =
     (let candidates = (if looks_utf16 raw then wide_candidates else []) @ legacy_candidates in
      case scan dec sc raw candidates ([], - 1) [] of
        (Return txt, seen) \<Rightarrow> (txt, seen)
      | (Fallthrough (best_txt, best_score), seen) \<Rightarrow>
          if looks_utf16 raw \<and> best_score < 9 / 10 \<and> 4 \<le> length raw
          then (case scan dec sc (every_other raw) legacy_candidates (best_txt, best_score) seen of
                  (Return txt, seen') \<Rightarrow> (txt, seen')
                | (Fallthrough (best_txt', best_score'), seen') \<Rightarrow> (best_txt', seen'))
          else (best_txt, seen))"

definition smart_decode :: "codecs \<Rightarrow> (ustring \<Rightarrow> rat) \<Rightarrow> bytes \<Rightarrow> ustring" where
  "smart_decode dec sc raw = fst (smart_decode_run dec sc raw)"

definition attempted :: "codecs \<Rightarrow> (ustring \<Rightarrow> rat) \<Rightarrow> bytes \<Rightarrow> ustring list" where
  "attempted dec sc raw = snd (smart_decode_run dec sc raw)"

subsection \<open>A fragment of the codecs\<close>

text \<open>
  UTF-16 decoding of a list of bytes in the given byte order. A lone surrogate or an odd
  trailing byte is an error: the strict mode raises, the replacing mode puts U+FFFD for it
  (one U+FFFD for a high surrogate cut off by the end of the input).
\<close>

definition code_unit :: "bool \<Rightarrow> byte \<Rightarrow> byte \<Rightarrow> nat" where
  "code_unit big_endian a b = (if big_endian then 256 * unat a + unat b else unat a + 256 * unat b)"

definition bad_unit :: "errors_mode \<Rightarrow> ustring option \<Rightarrow> ustring option" where
  "bad_unit kw rest = (case kw of Strict \<Rightarrow> None | Replace \<Rightarrow> map_option (\<lambda>t. 0xFFFD # t) rest)"

fun utf16_decode :: "bool \<Rightarrow> errors_mode \<Rightarrow> bytes \<Rightarrow> ustring option" where
  "utf16_decode be kw [] = Some []"
| "utf16_decode be kw [a] = bad_unit kw (Some [])"
| "utf16_decode be kw [a, b] =
     (if 0xD800 \<le> code_unit be a b \<and> code_unit be a b \<le> 0xDFFF then bad_unit kw (Some [])
      else Some [code_unit be a b])"
| "utf16_decode be kw (a # b # c # rest) =
     (if 0xD800 \<le> code_unit be a b \<and> code_unit be a b \<le> 0xDBFF then
        (case rest of
           [] \<Rightarrow> bad_unit kw (Some [])
         | d # rest' \<Rightarrow>
             if 0xDC00 \<le> code_unit be c d \<and> code_unit be c d \<le> 0xDFFF
             then map_option
                    (\<lambda>t. (0x10000 + (code_unit be a b - 0xD800) * 0x400
                            + (code_unit be c d - 0xDC00)) # t)
                    (utf16_decode be kw rest')
             else bad_unit kw (utf16_decode be kw (c # rest)))
      else if 0xDC00 \<le> code_unit be a b \<and> code_unit be a b \<le> 0xDFFF
      then bad_unit kw (utf16_decode be kw (c # rest))
      else map_option (\<lambda>t. code_unit be a b # t) (utf16_decode be kw (c # rest)))"

text \<open>Strict UTF-8 decoding: shortest forms only, no surrogates, at most U+10FFFF.\<close>

definition is_cont :: "byte \<Rightarrow> bool" where
  "is_cont b \<longleftrightarrow> 0x80 \<le> b \<and> b \<le> 0xBF"

fun utf8_decode :: "bytes \<Rightarrow> ustring option" where
  "utf8_decode [] = Some []"
| "utf8_decode (b0 # rest) =
     (if b0 < 0x80 then map_option (\<lambda>t. unat b0 # t) (utf8_decode rest)
      else if 0xC2 \<le> b0 \<and> b0 \<le> 0xDF then
        (case rest of
           b1 # r \<Rightarrow>
             if is_cont b1
             then map_option (\<lambda>t. ((unat b0 - 0xC0) * 64 + (unat b1 - 0x80)) # t) (utf8_decode r)
             else None
         | _ \<Rightarrow> None)
      else if 0xE0 \<le> b0 \<and> b0 \<le> 0xEF then
        (case rest of
           b1 # b2 # r \<Rightarrow>
             if is_cont b1 \<and> is_cont b2 \<and> (if b0 = 0xE0 then 0xA0 \<le> b1 else True) \<and>
                (if b0 = 0xED then b1 \<le> 0x9F else True)
             then map_option
                    (\<lambda>t. ((unat b0 - 0xE0) * 4096 + (unat b1 - 0x80) * 64 + (unat b2 - 0x80)) # t)
                    (utf8_decode r)
             else None
         | _ \<Rightarrow> None)
      else if 0xF0 \<le> b0 \<and> b0 \<le> 0xF4 then
        (case rest of
           b1 # b2 # b3 # r \<Rightarrow>
             if is_cont b1 \<and> is_cont b2 \<and> is_cont b3 \<and>
                (if b0 = 0xF0 then 0x90 \<le> b1 else True) \<and>
                (if b0 = 0xF4 then b1 \<le> 0x8F else True)
             then map_option
                    (\<lambda>t. ((unat b0 - 0xF0) * 262144 + (unat b1 - 0x80) * 4096
                            + (unat b2 - 0x80) * 64 + (unat b3 - 0x80)) # t)
                    (utf8_decode r)
             else None
         | _ \<Rightarrow> None)
      else None)"

text \<open>
  The three 8-bit oriented codecs in replacing mode agree on ASCII bytes, which decode to
  themselves, and on a single truncated lead byte at the end of the input, which becomes
  U+FFFD. \<open>ascii_or_replacement\<close> is their common value on such inputs; on other
  non-ASCII input the real tables differ from it and from each other.
\<close>

definition ascii_or_replacement :: "bytes \<Rightarrow> ustring" where
  "ascii_or_replacement raw = map (\<lambda>b. if b < 0x80 then unat b else 0xFFFD) raw"

text \<open>
  The codecs on the inputs of the examples below: UTF-16 in either byte order, the
  byte-order-mark sniffing \<open>utf-16\<close> codec (little-endian without a mark), UTF-8 (exact on
  well-formed input and on the fragment above), and the fragment of the two legacy
  codecs.
\<close>

fun sample_codecs :: codecs where
  "sample_codecs UTF16LE kw raw = utf16_decode False kw raw"
| "sample_codecs UTF16BE kw raw = utf16_decode True kw raw"
| "sample_codecs UTF16 kw raw =
     (case raw of
        a # b # rest \<Rightarrow>
          if a = 0xFF \<and> b = 0xFE then utf16_decode False kw rest
          else if a = 0xFE \<and> b = 0xFF then utf16_decode True kw rest
          else utf16_decode False kw raw
      | _ \<Rightarrow> utf16_decode False kw raw)"
| "sample_codecs CP949 kw raw = Some (ascii_or_replacement raw)"
| "sample_codecs EUCKR kw raw = Some (ascii_or_replacement raw)"
| "sample_codecs UTF8 kw raw =
     (case utf8_decode raw of
        Some t \<Rightarrow> Some t
      | None \<Rightarrow> (case kw of Strict \<Rightarrow> None | Replace \<Rightarrow> Some (ascii_or_replacement raw)))"

subsection \<open>The invariant of the loop\<close>

text \<open>
  What holds of the best text, the best score and the texts scored so far whenever the
  loop has not returned: no text scored above the best score or above the threshold; once
  a text was scored, the best text is one of them and the best score is its score; before
  that, they are the initial values.
\<close>

definition scan_inv :: "(ustring \<Rightarrow> rat) \<Rightarrow> ustring \<times> rat \<Rightarrow> ustring list \<Rightarrow> bool" where
  "scan_inv sc best seen \<longleftrightarrow>
     (\<forall>t\<in>set seen. sc t \<le> snd best \<and> sc t \<le> 12 / 10) \<and>
     (seen \<noteq> [] \<longrightarrow> snd best = sc (fst best) \<and> fst best \<in> set seen) \<and>
     (seen = [] \<longrightarrow> best = ([], - 1))"

section \<open>The strategies and extract_text\<close>

subsection \<open>Exceptions and the environment\<close>

text \<open>
  An exception is its class and its message (\<open>str(err)\<close>). Only subclasses of
  \<open>Exception\<close> are modelled: these are what the \<open>except Exception\<close> clauses of the module
  catch.
\<close>

datatype exn_class =
  RuntimeError | ValueError | UnicodeDecodeError | OSError | BadZipFile | ParseError |
  InvalidHwp5FileError | HWPExtractorError | HWPExtractorNoPasswordError | OtherException

datatype exn = Exn (exn_class: exn_class) (message: string)

text \<open>
  An open \<open>zipfile.ZipFile\<close>: \<open>namelist()\<close> and, for a name, what \<open>archive.open(name)\<close>
  followed by \<open>read()\<close> returns or raises.
\<close>

record zip_archive =
  namelist :: "ustring list"
  read_entry :: "ustring \<Rightarrow> exn + bytes"

text \<open>
  Everything the module gets from outside: the character tables, the codecs and the
  scoring function of \<open>smart_decode\<close> (see above), \<open>str.lower\<close>, the file system, the zip
  reader, the import of \<open>hwp5\<close> (\<open>HAS_PYHWP\<close>, \<open>PYHWP_IMPORT_ERROR\<close>), the two transforms of
  \<open>hwp5\<close> as run by \<open>run_transform\<close>, \<open>lxml\<close> (\<open>fromstring\<close> followed by \<open>text_content\<close>) and
  \<open>HWPExtractor(data=data, raise_pw_error=False).extract_files()\<close>, whose streams are given
  as pairs of \<open>name\<close> and \<open>data\<close>. Each call returns its value (\<open>Inr\<close>) or raises (\<open>Inl\<close>).
\<close>

record env =
  tables :: unicode_db
  codec :: codecs
  score :: "ustring \<Rightarrow> rat"
  lower :: "ustring \<Rightarrow> ustring"
  read_file :: "string \<Rightarrow> exn + bytes"
  open_zip :: "string \<Rightarrow> exn + zip_archive"
  has_pyhwp :: bool
  pyhwp_import_error :: "exn option"
  hwp5_text :: "string \<Rightarrow> exn + bytes"
  hwp5_html :: "string \<Rightarrow> exn + bytes"
  html_text_content :: "ustring \<Rightarrow> exn + ustring"
  extract_files :: "bytes \<Rightarrow> exn + (ustring \<times> bytes) list"

text \<open>A string literal of the source as code points; \<open>startswith\<close> and \<open>endswith\<close>.\<close>

definition ustr :: "string \<Rightarrow> ustring" where
  "ustr s = map of_char s"

definition startswith :: "'a list \<Rightarrow> 'a list \<Rightarrow> bool" where
  "startswith s p \<longleftrightarrow> take (length p) s = p"

definition endswith :: "'a list \<Rightarrow> 'a list \<Rightarrow> bool" where
  "endswith s p \<longleftrightarrow> length p \<le> length s \<and> drop (length s - length p) s = p"

text \<open>The truth value of an \<open>Optional[str]\<close>: \<open>None\<close> and the empty string are false.\<close>

definition text_of :: "ustring option \<Rightarrow> ustring" where
  "text_of r = (case r of None \<Rightarrow> [] | Some t \<Rightarrow> t)"

subsection \<open>try_hwpx\<close>

definition zip_signature :: bytes where
  "zip_signature = [0x50, 0x4B, 0x03, 0x04]"

text \<open>
  \<open>re.sub(r"<[^>]+>", " ", xml_text)\<close>: a match starts at a less-than sign, takes every
  following character other than the greater-than sign, at least one, and needs a
  greater-than sign right after them.
\<close>

function strip_tags :: "ustring \<Rightarrow> ustring" where
  "strip_tags [] = []"
| "strip_tags (c # cs) =
     (if c = 60 \<and> takeWhile (\<lambda>x. x \<noteq> 62) cs \<noteq> [] \<and> dropWhile (\<lambda>x. x \<noteq> 62) cs \<noteq> []
      then 32 # strip_tags (tl (dropWhile (\<lambda>x. x \<noteq> 62) cs))
      else c # strip_tags cs)"
  by pat_completeness auto
termination
  by (relation "measure length")
    (auto simp: less_Suc_eq_le intro!: order_trans [OF diff_le_self length_dropWhile_le])

definition is_section_entry :: "env \<Rightarrow> ustring \<Rightarrow> bool" where
  "is_section_entry e name \<longleftrightarrow>
     startswith (lower e name) (ustr ''contents/section'') \<and>
     endswith (lower e name) (ustr ''.xml'')"

text \<open>The body of the loop over the sorted entries, and the loop.\<close>

definition read_section :: "env \<Rightarrow> zip_archive \<Rightarrow> ustring \<Rightarrow> exn + ustring" where
  "read_section e archive name =
     (case read_entry archive name of
        Inl err \<Rightarrow> Inl err
      | Inr xml_bytes \<Rightarrow>
          (case codec e UTF8 Strict xml_bytes of
             Some xml_text \<Rightarrow> Inr (strip_tags xml_text)
           | None \<Rightarrow>
               (case codec e UTF8 Replace xml_bytes of
                  Some xml_text \<Rightarrow> Inr (strip_tags xml_text)
                | None \<Rightarrow> Inl (Exn UnicodeDecodeError ''utf-8''))))"

fun read_sections :: "env \<Rightarrow> zip_archive \<Rightarrow> ustring list \<Rightarrow> exn + ustring list" where
  "read_sections e archive [] = Inr []"
| "read_sections e archive (name # names) =
     (case read_section e archive name of
        Inl err \<Rightarrow> Inl err
      | Inr stripped \<Rightarrow>
          (case read_sections e archive names of
             Inl err \<Rightarrow> Inl err
           | Inr texts \<Rightarrow> Inr (stripped # texts)))"

text \<open>The block under \<open>try\<close>: it returns \<open>None\<close> or a text, or raises.\<close>

definition try_hwpx_body :: "env \<Rightarrow> string \<Rightarrow> exn + ustring option" where
  "try_hwpx_body e path =
     (case read_file e path of
        Inl err \<Rightarrow> Inl err
      | Inr content \<Rightarrow>
          if take 4 content \<noteq> zip_signature then Inr None
          else
            (case open_zip e path of
               Inl err \<Rightarrow> Inl err
             | Inr archive \<Rightarrow>
                 (let section_entries = filter (is_section_entry e) (namelist archive) in
                  if section_entries = [] then Inr None
                  else
                    (case read_sections e archive (sort section_entries) of
                       Inl err \<Rightarrow> Inl err
                     | Inr texts \<Rightarrow> Inr (Some (normalize_text (tables e) (join [10] texts)))))))"

text \<open>The whole function: \<open>except Exception: return None\<close>.\<close>

definition try_hwpx :: "env \<Rightarrow> string \<Rightarrow> ustring option" where
  "try_hwpx e path = (case try_hwpx_body e path of Inl err \<Rightarrow> None | Inr r \<Rightarrow> r)"

subsection \<open>extract_with_pyhwp\<close>

text \<open>\<open>not raw.strip()\<close> on \<open>bytes\<close>: every byte is ASCII whitespace.\<close>

definition bytes_blank :: "bytes \<Rightarrow> bool" where
  "bytes_blank raw = list_all (\<lambda>b. b \<in> set [32, 9, 10, 13, 11, 12]) raw"

definition decode_utf8_replace :: "env \<Rightarrow> bytes \<Rightarrow> exn + ustring" where
  "decode_utf8_replace e raw =
     (case codec e UTF8 Replace raw of
        None \<Rightarrow> Inl (Exn UnicodeDecodeError ''utf-8'')
      | Some t \<Rightarrow> Inr t)"

text \<open>
  Lines 222 to 231: the text of the document, \<open>None\<close> when both transforms are blank
  (the early return of line 226).
\<close>

definition pyhwp_text_of :: "env \<Rightarrow> string \<Rightarrow> exn + ustring option" where
  "pyhwp_text_of e path =
     (case hwp5_text e path of
        Inl err \<Rightarrow> Inl err
      | Inr raw \<Rightarrow>
          if bytes_blank raw then
            (case hwp5_html e path of
               Inl err \<Rightarrow> Inl err
             | Inr raw' \<Rightarrow>
                 if bytes_blank raw' then Inr None
                 else
                   (case decode_utf8_replace e raw' of
                      Inl err \<Rightarrow> Inl err
                    | Inr html_text \<Rightarrow>
                        (case html_text_content e html_text of
                           Inl err \<Rightarrow> Inl err
                         | Inr t \<Rightarrow> Inr (Some t))))
          else
            (case decode_utf8_replace e raw of
               Inl err \<Rightarrow> Inl err
             | Inr t \<Rightarrow> Inr (Some t)))"

definition pyhwp_body :: "env \<Rightarrow> string \<Rightarrow> exn + (ustring option \<times> exn option)" where
  "pyhwp_body e path =
     (case pyhwp_text_of e path of
        Inl err \<Rightarrow> Inl err
      | Inr None \<Rightarrow> Inr (None, Some (Exn ValueError ''pyhwp produced no output''))
      | Inr (Some t) \<Rightarrow>
          (let normalized = normalize_text (tables e) t in
           if normalized \<noteq> [] then Inr (Some normalized, None)
           else Inr (None, Some (Exn ValueError ''pyhwp output was empty after normalization''))))"

definition extract_with_pyhwp :: "env \<Rightarrow> string \<Rightarrow> ustring option \<times> exn option" where
  "extract_with_pyhwp e path =
     (if \<not> has_pyhwp e then (None, pyhwp_import_error e)
      else case pyhwp_body e path of Inl err \<Rightarrow> (None, Some err) | Inr r \<Rightarrow> r)"

subsection \<open>extract_with_hwp_extract\<close>

fun collect_fragments :: "env \<Rightarrow> (ustring \<times> bytes) list \<Rightarrow> ustring list" where
  "collect_fragments e [] = []"
| "collect_fragments e ((name, content) # streams) =
     (if \<not> (startswith (lower e name) (ustr ''bodytext/'') \<or>
             startswith (lower e name) (ustr ''viewtext/''))
      then collect_fragments e streams
      else
        (let decoded = strip (smart_decode (codec e) (score e) content) in
         if decoded = [] then collect_fragments e streams
         else
           (let normalized = normalize_text (tables e) decoded in
            if normalized \<noteq> [] then normalized # collect_fragments e streams
            else collect_fragments e streams)))"

definition no_text_message :: string where
  "no_text_message = ''No textual content found in HWP file.''"

definition extract_with_hwp_extract :: "env \<Rightarrow> string \<Rightarrow> exn + ustring" where
  "extract_with_hwp_extract e path =
     (case read_file e path of
        Inl err \<Rightarrow> Inl err
      | Inr content \<Rightarrow>
          (case extract_files e content of
             Inl err \<Rightarrow> Inl err
           | Inr streams \<Rightarrow>
               (let text_fragments = collect_fragments e streams in
                if text_fragments = [] then Inl (Exn RuntimeError no_text_message)
                else Inr (join [10, 10] text_fragments))))"

subsection \<open>extract_text and main\<close>

text \<open>
  Lines 281 to 291: the last strategy under \<open>try\<close>, and the \<open>except\<close> clause that raises a
  \<open>RuntimeError\<close> with the message of the caught exception and the suffix.
\<close>

definition pyhwp_suffix :: "exn option \<Rightarrow> string" where
  "pyhwp_suffix pyhwp_error =
     (case pyhwp_error of
        None \<Rightarrow> ''''
      | Some err \<Rightarrow> '' (pyhwp failed: '' @ message err @ '')'')"

definition fallback :: "env \<Rightarrow> string \<Rightarrow> exn option \<Rightarrow> exn + (ustring \<times> string)" where
  "fallback e path pyhwp_error =
     (case extract_with_hwp_extract e path of
        Inr fallback_text \<Rightarrow>
          Inr (fallback_text,
               ''smart_decode'' @
               (if \<not> has_pyhwp e \<and> pyhwp_import_error e \<noteq> None then '' (pyhwp missing)''
                else ''''))
      | Inl err \<Rightarrow> Inl (Exn RuntimeError (message err @ pyhwp_suffix pyhwp_error)))"

text \<open>
  \<open>extract_text\<close>, together with the list of the strategy functions it called, in order.
  The program does not compute the list; it is there to state which strategies ran.
\<close>

datatype strategy = Hwpx | Pyhwp | HwpExtract

definition extract_text_run :: "env \<Rightarrow> string \<Rightarrow> strategy list \<times> (exn + (ustring \<times> string))" where
  "extract_text_run e path =
     (let hwpx_text = try_hwpx e path in
      if text_of hwpx_text \<noteq> [] then ([Hwpx], Inr (text_of hwpx_text, ''hwpx''))
      else if has_pyhwp e then
        (case extract_with_pyhwp e path of
           (pyhwp_text, pyhwp_error) \<Rightarrow>
             if text_of pyhwp_text \<noteq> [] then ([Hwpx, Pyhwp], Inr (text_of pyhwp_text, ''pyhwp''))
             else ([Hwpx, Pyhwp, HwpExtract], fallback e path pyhwp_error))
      else ([Hwpx, HwpExtract], fallback e path None))"

definition extract_text :: "env \<Rightarrow> string \<Rightarrow> exn + (ustring \<times> string)" where
  "extract_text e path = snd (extract_text_run e path)"

definition invoked :: "env \<Rightarrow> string \<Rightarrow> strategy list" where
  "invoked e path = fst (extract_text_run e path)"

text \<open>
  The \<open>except\<close> clauses of \<open>main\<close>, in their order: which one handles a failure of
  \<open>extract_text\<close>; \<open>None\<close> when it returns.
\<close>

datatype handler = NoPasswordClause | ExtractorErrorClause | ExceptionClause

definition main_handler :: "env \<Rightarrow> string \<Rightarrow> handler option" where
  "main_handler e path =
     (case extract_text e path of
        Inr r \<Rightarrow> None
      | Inl err \<Rightarrow>
          Some (if exn_class err = HWPExtractorNoPasswordError then NoPasswordClause
                else if exn_class err = HWPExtractorError then ExtractorErrorClause
                else ExceptionClause))"

subsection \<open>Sample environments\<close>

text \<open>\<open>str.lower\<close> on ASCII strings.\<close>

definition ascii_lower :: "ustring \<Rightarrow> ustring" where
  "ascii_lower s = map (\<lambda>c. if 0x41 \<le> c \<and> c \<le> 0x5A then c + 32 else c) s"

text \<open>
  A container document: the file starts with the zip signature, and the archive holds
  \<open>mimetype\<close> and \<open>Contents/Section0.xml\<close>, the latter being the UTF-8 bytes of an
  \<open>hp:t\<close> element around the two syllables U+C548 U+B155. The structured library and
  the raw-stream extractor reject the file.
\<close>

definition section0_xml :: bytes where
  "section0_xml = [0x3C, 0x68, 0x70, 0x3A, 0x74, 0x3E, 0xEC, 0x95, 0x88, 0xEB, 0x85, 0x95,
     0x3C, 0x2F, 0x68, 0x70, 0x3A, 0x74, 0x3E]"

definition sample_archive :: zip_archive where
  "sample_archive =
     \<lparr> namelist = [ustr ''mimetype'', ustr ''Contents/Section0.xml''],
       read_entry = (\<lambda>name. if name = ustr ''Contents/Section0.xml'' then Inr section0_xml
                            else if name = ustr ''mimetype'' then Inr []
                            else Inl (Exn OtherException ''KeyError'')) \<rparr>"

definition container_env :: env where
  "container_env =
     \<lparr> tables = sample_db, codec = sample_codecs, score = score_text sample_db,
       lower = ascii_lower,
       read_file = (\<lambda>path. Inr (zip_signature @ [0x14, 0x00])),
       open_zip = (\<lambda>path. Inr sample_archive),
       has_pyhwp = True, pyhwp_import_error = None,
       hwp5_text = (\<lambda>path. Inl (Exn InvalidHwp5FileError ''Not an OLE2 Compound Binary File.'')),
       hwp5_html = (\<lambda>path. Inl (Exn InvalidHwp5FileError ''Not an OLE2 Compound Binary File.'')),
       html_text_content = (\<lambda>t. Inr t),
       extract_files = (\<lambda>content. Inl (Exn HWPExtractorError ''Not an OLE file'')) \<rparr>"

text \<open>
  A binary document without a zip signature: the zip reader and the structured library
  reject it, and the raw-stream extractor yields the given result.
\<close>

definition binary_env :: "exn + (ustring \<times> bytes) list \<Rightarrow> env" where
  "binary_env streams =
     \<lparr> tables = sample_db, codec = sample_codecs, score = score_text sample_db,
       lower = ascii_lower,
       read_file = (\<lambda>path. Inr [0xD0, 0xCF, 0x11, 0xE0, 0xA1, 0xB1, 0x1A, 0xE1]),
       open_zip = (\<lambda>path. Inl (Exn BadZipFile ''File is not a zip file'')),
       has_pyhwp = True, pyhwp_import_error = None,
       hwp5_text = (\<lambda>path. Inl (Exn ParseError ''cannot parse'')),
       hwp5_html = (\<lambda>path. Inl (Exn ParseError ''cannot parse'')),
       html_text_content = (\<lambda>t. Inr t),
       extract_files = (\<lambda>content. streams) \<rparr>"

text \<open>
  A protected document: the raw-stream extractor raises its no-password exception.
\<close>

definition encrypted_env :: env where
  "encrypted_env = binary_env (Inl (Exn HWPExtractorNoPasswordError ''no password''))"

text \<open>A file that cannot be opened.\<close>

definition unreadable_env :: env where
  "unreadable_env =
     (binary_env (Inr []))\<lparr> read_file := (\<lambda>path. Inl (Exn OSError ''No such file or directory'')) \<rparr>"

text \<open>
  The same container with a second section entry, \<open>Contents/Section1.xml\<close>: one whose
  bytes are a paragraph element around \<open>AB\<close>, and one that cannot be read (a damaged
  member of the archive).
\<close>

definition section1_xml :: bytes where
  "section1_xml = [0x3C, 0x70, 0x3E, 0x41, 0x42, 0x3C, 0x2F, 0x70, 0x3E]"

definition second_section_env :: "exn + bytes \<Rightarrow> env" where
  "second_section_env section1 =
     container_env
       \<lparr> open_zip := (\<lambda>path. Inr
           (sample_archive
              \<lparr> namelist := namelist sample_archive @ [ustr ''Contents/Section1.xml''],
                read_entry := (\<lambda>name. if name = ustr ''Contents/Section1.xml'' then section1
                                      else read_entry sample_archive name) \<rparr>)) \<rparr>"

subsection \<open>Markup and Korean text\<close>

text \<open>
  A run of tags: each one a less-than sign, the text of the tag, a greater-than sign.
\<close>

fun markup :: "ustring list \<Rightarrow> ustring" where
  "markup [] = []"
| "markup (a # as) = 60 # a @ 62 # markup as"

text \<open>
  Korean text: words of Hangul syllables, with one space between two words.
\<close>

fun hangul_words :: "ustring \<Rightarrow> bool" where
  "hangul_words [] = False"
| "hangul_words [c] = is_hangul c"
| "hangul_words (c # d # cs) =
     (is_hangul c \<and> (if d = 32 then hangul_words cs else hangul_words (d # cs)))"

section \<open>Properties of normalize_text\<close>

lemma span_start_not_space: "span_start c \<Longrightarrow> \<not> isspace c"
  by (auto simp: span_start_def isspace_def is_hangul_def is_latin_def is_digit_def)

lemma span_body_allowed: "span_body c \<Longrightarrow> is_allowed_char db c"
  by (auto simp: span_body_def span_start_def is_allowed_char_def punctuation_def
      is_hangul_def is_latin_def is_digit_def)

lemma collapse_ws_head:
  "collapse_ws xs = a # ys \<Longrightarrow> \<not> isspace (hd xs) \<Longrightarrow> \<not> isspace a"
  by (cases xs) (auto split: if_splits)

lemma collapse_ws_single_spaced: "single_spaced (collapse_ws xs)"
proof (induction xs rule: collapse_ws.induct)
  case 1
  show ?case by simp
next
  case (2 c cs)
  show ?case
  proof (cases "isspace c")
    case True
    let ?r = "collapse_ws (dropWhile isspace cs)"
    have hd: "\<not> isspace d" if "?r = d # ds" for d ds
    proof -
      from that have ne: "dropWhile isspace cs \<noteq> []"
        by (cases "dropWhile isspace cs") simp_all
      then have "\<not> isspace (hd (dropWhile isspace cs))" by (rule hd_dropWhile)
      with that show ?thesis by (rule collapse_ws_head)
    qed
    have ss: "single_spaced ?r" using 2(1) True by simp
    have eq: "collapse_ws (c # cs) = 32 # ?r" using True by simp
    show ?thesis unfolding eq using ss hd by (cases ?r) simp_all
  next
    case False
    with 2 show ?thesis by simp
  qed
qed

lemma single_spaced_append:
  "single_spaced (xs @ ys) \<Longrightarrow> single_spaced xs \<and> single_spaced ys"
proof (induction xs)
  case Nil
  then show ?case by simp
next
  case (Cons a xs)
  then show ?case by (cases xs) auto
qed

lemma single_spaced_dropWhile: "single_spaced xs \<Longrightarrow> single_spaced (dropWhile P xs)"
  using single_spaced_append [of "takeWhile P xs" "dropWhile P xs"] by simp

lemma single_spaced_takeWhile: "single_spaced xs \<Longrightarrow> single_spaced (takeWhile P xs)"
  using single_spaced_append [of "takeWhile P xs" "dropWhile P xs"] by simp

lemma rstrip_prefix: "\<exists>ys. xs = rstrip xs @ ys"
  by (induction xs) auto

lemma single_spaced_rstrip:
  assumes "single_spaced xs"
  shows "single_spaced (rstrip xs)"
proof -
  obtain ys where "xs = rstrip xs @ ys" using rstrip_prefix by blast
  with assms have "single_spaced (rstrip xs @ ys)" by simp
  then show ?thesis using single_spaced_append by blast
qed

lemma single_spaced_strip: "single_spaced xs \<Longrightarrow> single_spaced (strip xs)"
  by (simp add: strip_def single_spaced_rstrip single_spaced_dropWhile)

lemma rstrip_idem: "rstrip (rstrip xs) = rstrip xs"
  by (induction xs) auto

lemma set_rstrip: "set (rstrip xs) \<subseteq> set xs"
  by (induction xs) auto

lemma rstrip_Cons_nonspace: "\<not> isspace c \<Longrightarrow> rstrip (c # cs) = c # rstrip cs"
  by simp

lemma findall_spans_shape:
  "s \<in> set (findall_spans xs) \<Longrightarrow>
     \<exists>c cs. s = c # cs \<and> span_start c \<and> list_all span_body cs"
proof (induction xs rule: findall_spans.induct)
  case 1
  then show ?case by simp
next
  case (2 c cs)
  then show ?case
    by (auto split: if_splits simp: list_all_iff dest: set_takeWhileD)
qed

lemma findall_spans_infix:
  "s \<in> set (findall_spans xs) \<Longrightarrow> \<exists>ps ss. xs = ps @ s @ ss"
proof (induction xs rule: findall_spans.induct)
  case 1
  then show ?case by simp
next
  case (2 c cs)
  show ?case
  proof (cases "span_start c")
    case True
    with 2 consider "s = c # takeWhile span_body cs"
      | "s \<in> set (findall_spans (dropWhile span_body cs))" by auto
    then show ?thesis
    proof cases
      case 1
      have "c # cs = [] @ (c # takeWhile span_body cs) @ dropWhile span_body cs" by simp
      with 1 show ?thesis by blast
    next
      case 2
      with "2.IH"(1) True obtain ps ss where "dropWhile span_body cs = ps @ s @ ss" by blast
      then have "c # cs = (c # takeWhile span_body cs @ ps) @ s @ ss"
        by (metis append_Cons append_assoc takeWhile_dropWhile_id)
      then show ?thesis by blast
    qed
  next
    case False
    with 2 obtain ps ss where "cs = ps @ s @ ss" by auto
    then have "c # cs = (c # ps) @ s @ ss" by simp
    then show ?thesis by blast
  qed
qed

lemma max_by_len_mem: "max_by_len best ss \<in> set (best # ss)"
  by (induction ss arbitrary: best) (auto split: if_splits)


lemma single_spaced_infix: "single_spaced (ps @ s @ ss) \<Longrightarrow> single_spaced s"
  using single_spaced_append [of ps "s @ ss"] single_spaced_append [of s ss] by simp

lemma rstrip_space:
  "isspace c \<Longrightarrow> rstrip (c # cs) = (if rstrip cs = [] then [] else c # rstrip cs)"
  by simp

lemma list_all_rstrip: "list_all P xs \<Longrightarrow> list_all P (rstrip xs)"
  by (induction xs) auto

lemma single_spaced_space: "single_spaced l \<Longrightarrow> c \<in> set l \<Longrightarrow> isspace c \<Longrightarrow> c = 32"
  by (induction l) auto

lemma collapse_ws_id: "single_spaced l \<Longrightarrow> collapse_ws l = l"
proof (induction l rule: collapse_ws.induct)
  case 1
  show ?case by simp
next
  case (2 c cs)
  show ?case
  proof (cases "isspace c")
    case True
    with 2(3) have c: "c = 32" and hd: "case cs of [] \<Rightarrow> True | d # _ \<Rightarrow> \<not> isspace d"
      and ss: "single_spaced cs" by simp_all
    from hd have dw: "dropWhile isspace cs = cs" by (cases cs) simp_all
    from 2(1) True ss dw have "collapse_ws cs = cs" by simp
    with True c dw show ?thesis by simp
  next
    case False
    with 2 show ?thesis by simp
  qed
qed


lemma best_span_of_shape:
  assumes "best_span_of db r = Some l"
  shows "span_shape l"
proof -
  define F where "F = strip (collapse_ws (filter (is_allowed_char db) r))"
  from assms obtain s ss where fs: "findall_spans F = s # ss"
    and l: "l = strip (max_by_len s ss)"
    by (auto simp: best_span_of_def Let_def F_def split: if_splits list.splits)
  let ?M = "max_by_len s ss"
  have mem: "?M \<in> set (findall_spans F)" using max_by_len_mem [of s ss] fs by simp
  then obtain c cs where M: "?M = c # cs" and c: "span_start c" and cs: "list_all span_body cs"
    using findall_spans_shape by blast
  from mem obtain ps sf where "F = ps @ ?M @ sf" using findall_spans_infix by blast
  moreover have "single_spaced F"
    unfolding F_def by (rule single_spaced_strip) (rule collapse_ws_single_spaced)
  ultimately have ssM: "single_spaced ?M" using single_spaced_infix by metis
  have nsp: "\<not> isspace c" using c by (rule span_start_not_space)
  have l_eq: "l = c # rstrip cs" using l M nsp by (simp add: strip_def)
  have l_r: "l = rstrip ?M" using l M nsp by (simp add: strip_def)
  have "list_all span_body ?M" using M c cs by (simp add: span_body_def)
  then have body: "list_all span_body l" unfolding l_r by (rule list_all_rstrip)
  have ss_l: "single_spaced l" unfolding l_r using ssM by (rule single_spaced_rstrip)
  have id: "rstrip l = l" unfolding l_r by (rule rstrip_idem)
  show ?thesis
    unfolding span_shape_def using l_eq c body ss_l id by simp
qed

lemma span_shape_filter: "span_shape l \<Longrightarrow> filter (is_allowed_char db) l = l"
  by (simp add: span_shape_def list_all_iff span_body_allowed)

lemma span_shape_collapse: "span_shape l \<Longrightarrow> collapse_ws l = l"
  by (simp add: span_shape_def collapse_ws_id)

lemma span_shape_strip:
  assumes "span_shape l"
  shows "strip l = l"
proof -
  from assms obtain c cs where l: "l = c # cs" and c: "span_start c"
    by (cases l) (auto simp: span_shape_def)
  have "\<not> isspace c" using c by (rule span_start_not_space)
  moreover from assms have "rstrip l = l" by (simp add: span_shape_def)
  ultimately show ?thesis unfolding strip_def l by simp
qed

lemma span_shape_best_span_of:
  assumes "span_shape l"
  shows "best_span_of db l = Some l"
proof -
  from assms obtain c cs where l: "l = c # cs" and c: "span_start c"
    by (cases l) (auto simp: span_shape_def)
  from assms have body: "list_all span_body l" by (simp add: span_shape_def)
  have f: "filter (is_allowed_char db) l = l" using assms by (rule span_shape_filter)
  have cw: "collapse_ws l = l" using assms by (rule span_shape_collapse)
  have st: "strip l = l" using assms by (rule span_shape_strip)
  have tw: "takeWhile span_body cs = cs" using body l by (simp add: list_all_iff)
  have dw: "dropWhile span_body cs = []" using body l by (simp add: list_all_iff)
  have fa: "findall_spans l = [l]"
    unfolding l findall_spans.simps tw dw using c by simp
  have ne: "l \<noteq> []" using l by simp
  show ?thesis
    using ne unfolding best_span_of_def Let_def f cw st fa by (simp add: st)
qed

lemma process_line_span_line:
  assumes "process_line db r = Some l"
  shows "span_line db l"
proof -
  from assms have "best_span_of db r = Some l" and "quality_gate db l"
    by (auto simp: process_line_def split: option.splits if_splits)
  then show ?thesis by (simp add: span_line_def best_span_of_shape)
qed

lemma span_line_process_line: "span_line db l \<Longrightarrow> process_line db l = Some l"
  by (simp add: span_line_def process_line_def span_shape_best_span_of)

lemma span_shape_chars:
  assumes "span_shape l" and "x \<in> set l"
  shows "span_char x"
proof -
  from assms have b: "span_body x" by (simp add: span_shape_def list_all_iff)
  from assms have "isspace x \<longrightarrow> x = 32"
    using single_spaced_space [of l x] by (simp add: span_shape_def)
  with b show ?thesis by (auto simp: span_body_def span_start_def span_char_def)
qed

lemma span_line_chars: "span_line db l \<Longrightarrow> x \<in> set l \<Longrightarrow> span_char x"
  using span_shape_chars [of l x] by (simp add: span_line_def)

lemma replace_crlf_id: "13 \<notin> set xs \<Longrightarrow> replace_crlf xs = xs"
  by (induction xs rule: replace_crlf.induct) auto

lemma replace_cr_id: "13 \<notin> set xs \<Longrightarrow> replace_cr xs = xs"
  unfolding replace_cr_def by (induction xs) auto

lemma collapse_newlines_prefix:
  "10 \<notin> set l \<Longrightarrow> collapse_newlines (l @ xs) = l @ collapse_newlines xs"
  by (induction l) auto

lemma collapse_newlines_single:
  "c \<noteq> 10 \<Longrightarrow> collapse_newlines (10 # c # xs) = 10 # collapse_newlines (c # xs)"
  by simp

lemma join_Cons_head:
  "y \<noteq> [] \<Longrightarrow> \<exists>rest. join sep (y # ys) = hd y # rest"
  by (cases ys; cases y) auto

lemma collapse_newlines_join:
  "\<forall>l\<in>set L. l \<noteq> [] \<and> 10 \<notin> set l \<Longrightarrow> collapse_newlines (join [10] L) = join [10] L"
proof (induction "[10::nat]" L rule: join.induct)
  case 1
  show ?case by simp
next
  case (2 x)
  then show ?case using collapse_newlines_prefix [of x "[]"] by simp
next
  case (3 x y ys)
  then have yn: "y \<noteq> []" and "10 \<notin> set y" by simp_all
  then have y: "y \<noteq> []" "hd y \<noteq> 10" by (cases y; simp)+
  then obtain rest where r: "join [10] (y # ys) = hd y # rest" using join_Cons_head by blast
  from 3 have ih: "collapse_newlines (join [10] (y # ys)) = join [10] (y # ys)" by simp
  have "collapse_newlines (join [10] (x # y # ys)) = x @ collapse_newlines (10 # hd y # rest)"
    using 3(2) collapse_newlines_prefix [of x] r by simp
  also have "\<dots> = x @ 10 # collapse_newlines (hd y # rest)"
    using collapse_newlines_single [OF y(2), of rest] by (simp del: collapse_newlines.simps)
  also have "\<dots> = join [10] (x # y # ys)" using ih r by simp
  finally show ?case .
qed

lemma set_join: "set (join sep L) \<subseteq> set sep \<union> \<Union> (set ` set L)"
  by (induction sep L rule: join.induct) auto

lemma span_char_plain: "span_char c \<Longrightarrow> c \<noteq> 13 \<and> c \<noteq> 10 \<and> c \<noteq> 0 \<and> \<not> is_control c"
  by (auto simp: span_char_def is_control_def is_hangul_def is_latin_def is_digit_def)

lemma clean_join_id:
  assumes "\<forall>l\<in>set L. span_line db l"
  shows "clean (join [10] L) = join [10] L"
proof -
  let ?out = "join [10] L"
  have chars: "span_char c \<or> c = 10" if "c \<in> set ?out" for c
    using that set_join [of "[10]" L] assms span_line_chars by fastforce
  have a: "13 \<notin> set ?out" using chars span_char_plain by fastforce
  have b: "remove_nul ?out = ?out"
    unfolding remove_nul_def using chars span_char_plain by (fastforce simp: filter_id_conv)
  have c: "remove_control ?out = ?out"
    unfolding remove_control_def using chars span_char_plain
    by (fastforce simp: filter_id_conv is_control_def)
  have "\<forall>l\<in>set L. l \<noteq> [] \<and> 10 \<notin> set l"
    using assms span_line_chars span_char_plain by (fastforce simp: span_line_def span_shape_def)
  then have d: "collapse_newlines ?out = ?out" by (rule collapse_newlines_join)
  show ?thesis
    unfolding clean_def by (simp add: replace_crlf_id replace_cr_id a b c d)
qed

lemma split_nl_line: "10 \<notin> set l \<Longrightarrow> split_nl l = [l]"
  by (induction l) auto

lemma split_nl_prefix: "10 \<notin> set l \<Longrightarrow> split_nl (l @ 10 # xs) = l # split_nl xs"
  by (induction l) auto

lemma split_nl_join:
  "L \<noteq> [] \<Longrightarrow> \<forall>l\<in>set L. 10 \<notin> set l \<Longrightarrow> split_nl (join [10] L) = L"
proof (induction "[10::nat]" L rule: join.induct)
  case 1
  then show ?case by simp
next
  case (2 x)
  then show ?case by (simp add: split_nl_line)
next
  case (3 x y ys)
  then show ?case by (simp add: split_nl_prefix)
qed

lemma map_filter_id: "\<forall>x\<in>set xs. f x = Some x \<Longrightarrow> List.map_filter f xs = xs"
  by (induction xs) (auto simp: List.map_filter_simps)

lemma map_filter_mem:
  "y \<in> set (List.map_filter f xs) \<Longrightarrow> \<exists>x\<in>set xs. f x = Some y"
  by (induction xs) (auto simp: List.map_filter_simps split: option.splits)

lemma sanitized_lines_span_line: "l \<in> set (sanitized_lines db raw) \<Longrightarrow> span_line db l"
  unfolding sanitized_lines_def using map_filter_mem process_line_span_line by metis

lemma sanitized_lines_join:
  "sanitized_lines db (join [10] (sanitized_lines db S)) = sanitized_lines db S"
proof -
  let ?L = "sanitized_lines db S"
  have sl: "\<forall>l\<in>set ?L. span_line db l" using sanitized_lines_span_line by blast
  have cl: "clean (join [10] ?L) = join [10] ?L" using sl by (rule clean_join_id)
  show ?thesis
  proof (cases "?L = []")
    case True
    then show ?thesis
      by (simp add: sanitized_lines_def clean_def replace_cr_def remove_nul_def
          remove_control_def List.map_filter_simps process_line_def best_span_of_def strip_def)
  next
    case False
    have nl: "\<forall>l\<in>set ?L. 10 \<notin> set l"
      using sl span_line_chars span_char_plain by blast
    have "split_nl (join [10] ?L) = ?L" using False nl by (rule split_nl_join)
    moreover have "List.map_filter (process_line db) ?L = ?L"
      using sl span_line_process_line by (simp add: map_filter_id)
    ultimately show ?thesis unfolding sanitized_lines_def [of db "join [10] ?L"] cl by simp
  qed
qed

lemma sanitized_lines_newline_free:
  "l \<in> set (sanitized_lines db S) \<Longrightarrow> l \<noteq> [] \<and> 10 \<notin> set l"
  using sanitized_lines_span_line [of l db S] span_line_chars [of db l] span_char_plain
  by (fastforce simp: span_line_def span_shape_def)

lemma join_eq_Nil: "\<forall>l\<in>set L. l \<noteq> [] \<Longrightarrow> join sep L = [] \<longleftrightarrow> L = []"
  by (induction sep L rule: join.induct) auto

lemma split_nl_nonempty: "split_nl xs \<noteq> []"
  by (induction xs) (auto split: list.splits)

lemma split_nl_blank: "[] \<in> set (tl (split_nl (ps @ 10 # 10 # ss)))"
proof (induction ps)
  case Nil
  show ?case by simp
next
  case (Cons c ps)
  show ?case
  proof (cases "c = 10")
    case True
    with Cons show ?thesis using split_nl_nonempty [of "ps @ 10 # 10 # ss"]
      by (cases "split_nl (ps @ 10 # 10 # ss)") auto
  next
    case False
    with Cons show ?thesis by (cases "split_nl (ps @ 10 # 10 # ss)") auto
  qed
qed

lemma no_blank_line:
  assumes "L \<noteq> []" and "\<forall>l\<in>set L. l \<noteq> [] \<and> 10 \<notin> set l"
  shows "join [10] L \<noteq> ps @ (10::nat) # 10 # ss"
proof
  assume eq: "join [10] L = ps @ (10::nat) # 10 # ss"
  have "split_nl (join [10] L) = L" using assms by (simp add: split_nl_join)
  with eq have "split_nl (ps @ 10 # 10 # ss) = L" by simp
  then have "[] \<in> set (tl L)" using split_nl_blank [of ps ss] by simp
  then have "[] \<in> set L" using assms(1) by (cases L) auto
  with assms(2) show False by blast
qed

lemma set_collapse_ws: "set (collapse_ws xs) \<subseteq> insert 32 (set xs)"
proof (induction xs rule: collapse_ws.induct)
  case 1
  show ?case by simp
next
  case (2 c cs)
  show ?case
  proof (cases "isspace c")
    case True
    with 2 have "set (collapse_ws (dropWhile isspace cs)) \<subseteq> insert 32 (set (dropWhile isspace cs))"
      by simp
    moreover have "set (dropWhile isspace cs) \<subseteq> set cs" by (auto dest: set_dropWhileD)
    ultimately show ?thesis using True by auto
  next
    case False
    with 2 show ?thesis by auto
  qed
qed

lemma set_strip: "set (strip xs) \<subseteq> set xs"
  unfolding strip_def using set_rstrip [of "dropWhile isspace xs"]
  by (auto dest: set_dropWhileD)

lemma findall_spans_none: "\<forall>c\<in>set xs. \<not> span_start c \<Longrightarrow> findall_spans xs = []"
  by (induction xs) auto

lemma best_span_of_no_start:
  assumes "list_all (\<lambda>c. \<not> span_start c) r"
  shows "best_span_of db r = None"
proof -
  let ?F = "strip (collapse_ws (filter (is_allowed_char db) r))"
  have "set ?F \<subseteq> insert 32 (set r)"
    using set_strip [of "collapse_ws (filter (is_allowed_char db) r)"]
      set_collapse_ws [of "filter (is_allowed_char db) r"] by auto
  moreover have "\<not> span_start 32"
    by (simp add: span_start_def is_hangul_def is_latin_def is_digit_def)
  ultimately have "\<forall>c\<in>set ?F. \<not> span_start c"
    using assms by (auto simp: list_all_iff)
  then have "findall_spans ?F = []" by (rule findall_spans_none)
  then show ?thesis by (simp add: best_span_of_def Let_def)
qed

lemmas normalize_eval =
  normalize_text_def sanitized_lines_def clean_def replace_cr_def remove_nul_def
  remove_control_def is_control_def List.map_filter_simps process_line_def best_span_of_def
  quality_gate_def is_allowed_char_def isspace_def punctuation_def strip_def span_start_def
  span_body_def is_hangul_def is_latin_def is_digit_def Let_def

lemma span_char_body: "span_char c \<Longrightarrow> span_body c"
  by (auto simp: span_char_def span_body_def span_start_def isspace_def)

lemma newline_allowed: "is_allowed_char db 10"
  by (simp add: is_allowed_char_def isspace_def)

lemma span_char_allowed: "span_char c \<or> c = 10 \<Longrightarrow> is_allowed_char db c"
  using span_char_body [of c] span_body_allowed [of c db] newline_allowed [of db] by blast

lemma normalize_text_chars:
  assumes "c \<in> set (normalize_text db S)"
  shows "span_char c \<or> c = 10"
proof -
  from assms have "c \<in> set [10] \<union> \<Union> (set ` set (sanitized_lines db S))"
    using set_join [of "[10]" "sanitized_lines db S"] unfolding normalize_text_def by blast
  then consider "c = 10" | l where "l \<in> set (sanitized_lines db S)" "c \<in> set l" by auto
  then show ?thesis
  proof cases
    case 1
    then show ?thesis by simp
  next
    case 2
    then show ?thesis using sanitized_lines_span_line span_line_chars by blast
  qed
qed

lemma process_line_no_start:
  "list_all (\<lambda>c. \<not> span_start c) r \<Longrightarrow> process_line db r = None"
  by (simp add: process_line_def best_span_of_no_start)

lemma rstrip_fixed_last: "rstrip l = l \<Longrightarrow> l \<noteq> [] \<Longrightarrow> \<not> isspace (last l)"
proof (induction l)
  case Nil
  then show ?case by simp
next
  case (Cons c cs)
  show ?case
  proof (cases "cs = []")
    case True
    with Cons.prems show ?thesis by (auto split: if_splits)
  next
    case False
    from Cons.prems(1) have "rstrip cs = cs" by (auto split: if_splits)
    with Cons.IH False show ?thesis by simp
  qed
qed

lemma single_spaced_no_pair: "single_spaced l \<Longrightarrow> l \<noteq> ps @ 32 # 32 # ss"
proof
  assume s: "single_spaced l" and e: "l = ps @ 32 # 32 # ss"
  then have "single_spaced (32 # 32 # ss)" using single_spaced_append [of ps "32 # 32 # ss"] by simp
  then show False by (simp add: isspace_def)
qed

lemma span_shape_plain:
  assumes "span_shape l"
  shows "l \<noteq> [] \<and> \<not> isspace (hd l) \<and> \<not> isspace (last l) \<and>
    (\<forall>c\<in>set l. if isspace c then c = 32 else True) \<and> \<not> (\<exists>ps ss. l = ps @ [32, 32] @ ss)"
proof -
  from assms obtain c cs where l: "l = c # cs" and c: "span_start c"
    by (cases l) (auto simp: span_shape_def)
  from assms have ss: "single_spaced l" and rs: "rstrip l = l" by (simp_all add: span_shape_def)
  have 1: "l \<noteq> []" using l by simp
  have 2: "\<not> isspace (hd l)" using l c span_start_not_space by simp
  have 3: "\<not> isspace (last l)" using rs 1 by (rule rstrip_fixed_last)
  have 4: "\<forall>c\<in>set l. if isspace c then c = 32 else True"
    using single_spaced_space [OF ss] by auto
  have 5: "\<not> (\<exists>ps ss. l = ps @ [32, 32] @ ss)"
    using single_spaced_no_pair [OF ss] by auto
  show ?thesis using 1 2 3 4 5 by blast
qed

section \<open>Claims about normalize_text\<close>

text \<open>
  C2. The normalizer is idempotent: for every table of the character database and every
  string \<open>S\<close>, normalizing the normalized text returns it unchanged.
\<close>

theorem normalize_text_idempotent:
  "normalize_text db (normalize_text db S) = normalize_text db S"
  by (simp add: normalize_text_def sanitized_lines_join)

text \<open>
  C8. As stated the claim fails at the empty output: when no line survives (as for the
  empty input) the output is the empty string, and splitting it on the newline gives one
  piece, the empty line.
\<close>

theorem normalize_text_empty_line_counterexample:
  "normalize_text sample_db [] = [] \<and>
   split_nl (normalize_text sample_db []) = [[]] \<and>
   \<not> list_all (\<lambda>l. l \<noteq> []) (split_nl (normalize_text sample_db []))"
  by (simp add: normalize_eval sample_db_def)

text \<open>
  C8, amended. The output is the lines of \<open>sanitized_lines\<close> joined by single newlines,
  and it is empty exactly when there is no line. When the output is not empty, splitting
  it on the newline returns these lines, and every one of them is non-empty, begins and
  ends with a character that is not whitespace, contains no whitespace character other
  than the space and no two spaces in a row; \<open>strip\<close> and \<open>collapse_ws\<close> leave it
  unchanged. The output contains no NUL, no character of the ranges U+0000 to U+0008,
  U+000B, U+000C, U+000E to U+001F, only characters of the allow-list, and no run of
  three newlines.
\<close>

theorem normalize_text_invariants:
  "normalize_text db S = join [10] (sanitized_lines db S) \<and>
   (normalize_text db S \<noteq> [] \<longrightarrow> split_nl (normalize_text db S) = sanitized_lines db S) \<and>
   (normalize_text db S = [] \<longrightarrow> sanitized_lines db S = []) \<and>
   (normalize_text db S \<noteq> [] \<longrightarrow>
      list_all
        (\<lambda>l. l \<noteq> [] \<and> \<not> isspace (hd l) \<and> \<not> isspace (last l) \<and>
             list_all (\<lambda>c. if isspace c then c = 32 else True) l \<and>
             \<not> (\<exists>ps ss. l = ps @ [32, 32] @ ss) \<and> strip l = l \<and> collapse_ws l = l)
        (split_nl (normalize_text db S))) \<and>
   list_all (\<lambda>l. l \<noteq> [] \<and> strip l = l \<and> collapse_ws l = l) (sanitized_lines db S) \<and>
   list_all
     (\<lambda>c. c \<noteq> 0 \<and> \<not> (c \<le> 8 \<or> c = 11 \<or> c = 12 \<or> (14 \<le> c \<and> c \<le> 31)) \<and>
          \<not> is_control c \<and> is_allowed_char db c)
     (normalize_text db S) \<and>
   \<not> (\<exists>ps ss. normalize_text db S = ps @ [10, 10, 10] @ ss)"
proof -
  let ?L = "sanitized_lines db S"
  let ?out = "normalize_text db S"
  have out: "?out = join [10] ?L" by (simp add: normalize_text_def)
  have nf: "\<forall>l\<in>set ?L. l \<noteq> [] \<and> 10 \<notin> set l"
    using sanitized_lines_newline_free by blast
  have empty: "?out = [] \<longleftrightarrow> ?L = []" unfolding out using nf by (simp add: join_eq_Nil)
  have split: "split_nl ?out = ?L" if "?out \<noteq> []"
    unfolding out using that empty nf by (simp add: split_nl_join)
  have shape: "span_shape l" if "l \<in> set ?L" for l
    using sanitized_lines_span_line [OF that] by (simp add: span_line_def)
  have lines: "list_all (\<lambda>l. l \<noteq> [] \<and> strip l = l \<and> collapse_ws l = l) ?L"
    unfolding list_all_iff using shape nf span_shape_strip span_shape_collapse by blast
  have plain: "list_all
        (\<lambda>l. l \<noteq> [] \<and> \<not> isspace (hd l) \<and> \<not> isspace (last l) \<and>
             list_all (\<lambda>c. if isspace c then c = 32 else True) l \<and>
             \<not> (\<exists>ps ss. l = ps @ [32, 32] @ ss) \<and> strip l = l \<and> collapse_ws l = l) ?L"
    unfolding list_all_iff
  proof
    fix l assume l: "l \<in> set ?L"
    show "l \<noteq> [] \<and> \<not> isspace (hd l) \<and> \<not> isspace (last l) \<and>
        (\<forall>c\<in>set l. if isspace c then c = 32 else True) \<and>
        \<not> (\<exists>ps ss. l = ps @ [32, 32] @ ss) \<and> strip l = l \<and> collapse_ws l = l"
      using span_shape_plain [OF shape [OF l]] span_shape_strip [OF shape [OF l]]
        span_shape_collapse [OF shape [OF l]]
      by (simp add: list_all_iff)
  qed
  have plain_split: "list_all
        (\<lambda>l. l \<noteq> [] \<and> \<not> isspace (hd l) \<and> \<not> isspace (last l) \<and>
             list_all (\<lambda>c. if isspace c then c = 32 else True) l \<and>
             \<not> (\<exists>ps ss. l = ps @ [32, 32] @ ss) \<and> strip l = l \<and> collapse_ws l = l)
        (split_nl ?out)" if "?out \<noteq> []"
    using plain split [OF that] by simp
  have chars: "span_char c \<or> c = 10" if "c \<in> set ?out" for c
    using that by (rule normalize_text_chars)
  have allowed: "is_allowed_char db c" if "span_char c \<or> c = 10" for c
    using that by (rule span_char_allowed)
  have cs: "list_all
     (\<lambda>c. c \<noteq> 0 \<and> \<not> (c \<le> 8 \<or> c = 11 \<or> c = 12 \<or> (14 \<le> c \<and> c \<le> 31)) \<and>
          \<not> is_control c \<and> is_allowed_char db c) ?out"
    unfolding list_all_iff
  proof
    fix c assume c: "c \<in> set ?out"
    from chars [OF c] have "c \<noteq> 0 \<and> \<not> is_control c"
      using span_char_plain [of c] by (auto simp: is_control_def)
    with allowed [OF chars [OF c]]
    show "c \<noteq> 0 \<and> \<not> (c \<le> 8 \<or> c = 11 \<or> c = 12 \<or> (14 \<le> c \<and> c \<le> 31)) \<and>
        \<not> is_control c \<and> is_allowed_char db c"
      by (simp add: is_control_def)
  qed
  have run: "\<not> (\<exists>ps ss. ?out = ps @ [10, 10, 10] @ ss)"
  proof
    assume "\<exists>ps ss. ?out = ps @ [10, 10, 10] @ ss"
    then obtain ps ss where e: "?out = ps @ 10 # 10 # (10 # ss)" by auto
    then have "?L \<noteq> []" using empty by auto
    then show False using no_blank_line [OF _ nf, of ps "10 # ss"] e out by simp
  qed
  show ?thesis using out split empty plain_split lines cs run by blast
qed

theorem normalize_text_invariants_witness:
  "normalize_text sample_db [32, 0xAC00, 32, 32, 0x41, 32, 59, 10, 10, 0x41] \<noteq> [] \<and>
   split_nl (normalize_text sample_db [32, 0xAC00, 32, 32, 0x41, 32, 59, 10, 10, 0x41]) =
     sanitized_lines sample_db [32, 0xAC00, 32, 32, 0x41, 32, 59, 10, 10, 0x41] \<and>
   sanitized_lines sample_db [32, 0xAC00, 32, 32, 0x41, 32, 59, 10, 10, 0x41]
     = [[0xAC00, 32, 0x41], [0x41]] \<and>
   normalize_text sample_db [] = [] \<and> sanitized_lines sample_db [] = []"
proof -
  have a: "sanitized_lines sample_db [32, 0xAC00, 32, 32, 0x41, 32, 59, 10, 10, 0x41]
      = [[0xAC00, 32, 0x41], [0x41]]"
    by (simp add: normalize_eval sample_db_def)
  have b: "normalize_text sample_db [] = []"
    by (simp add: normalize_eval sample_db_def)
  show ?thesis
    using normalize_text_invariants [of sample_db "[32, 0xAC00, 32, 32, 0x41, 32, 59, 10, 10, 0x41]"]
      normalize_text_invariants [of sample_db "[]"] a b
    by (simp add: normalize_text_def)
qed

text \<open>
  C10. Every character of the output is a Hangul syllable, an ASCII letter or digit, a
  space, a newline or one of \<open>. , ! ? \<dots> ( ) -\<close>. In particular no CJK ideograph, Hangul
  jamo or CJK symbol occurs in it, although the allow-list admits them.
\<close>

theorem normalize_text_span_alphabet:
  "(\<forall>c\<in>set (normalize_text db S).
      (is_hangul c \<or> is_latin c \<or> is_digit c \<or> c = 32 \<or> c = 10 \<or>
       c \<in> {46, 44, 33, 63, 0x2026, 40, 41, 45}) \<and>
      \<not> (0x4E00 \<le> c \<and> c \<le> 0x9FFF) \<and> \<not> (0x3400 \<le> c \<and> c \<le> 0x4DBF) \<and>
      \<not> (0x1100 \<le> c \<and> c \<le> 0x11FF) \<and> \<not> (0x3130 \<le> c \<and> c \<le> 0x318F) \<and>
      \<not> (0x3000 \<le> c \<and> c \<le> 0x303F)) \<and>
   is_allowed_char db 0x4E00 \<and> is_allowed_char db 0x3400 \<and> is_allowed_char db 0x1100 \<and>
   is_allowed_char db 0x3130 \<and> is_allowed_char db 0x3001"
proof -
  have "(is_hangul c \<or> is_latin c \<or> is_digit c \<or> c = 32 \<or> c = 10 \<or>
       c \<in> {46, 44, 33, 63, 0x2026, 40, 41, 45}) \<and>
      \<not> (0x4E00 \<le> c \<and> c \<le> 0x9FFF) \<and> \<not> (0x3400 \<le> c \<and> c \<le> 0x4DBF) \<and>
      \<not> (0x1100 \<le> c \<and> c \<le> 0x11FF) \<and> \<not> (0x3130 \<le> c \<and> c \<le> 0x318F) \<and>
      \<not> (0x3000 \<le> c \<and> c \<le> 0x303F)" if "c \<in> set (normalize_text db S)" for c
  proof -
    from that have "span_char c \<or> c = 10" by (rule normalize_text_chars)
    then show ?thesis
      by (auto simp: span_char_def is_hangul_def is_latin_def is_digit_def)
  qed
  moreover have "is_allowed_char db 0x4E00 \<and> is_allowed_char db 0x3400 \<and>
      is_allowed_char db 0x1100 \<and> is_allowed_char db 0x3130 \<and> is_allowed_char db 0x3001"
    by (simp add: is_allowed_char_def)
  ultimately show ?thesis by blast
qed

theorem normalize_text_span_alphabet_witness:
  "normalize_text sample_db [0xAC00, 0x4E00, 0x41, 0x42] = [0x41, 0x42] \<and>
   0x41 \<in> set (normalize_text sample_db [0xAC00, 0x4E00, 0x41, 0x42]) \<and> is_latin 0x41"
proof -
  have a: "normalize_text sample_db [0xAC00, 0x4E00, 0x41, 0x42] = [0x41, 0x42]"
    by (simp add: normalize_eval sample_db_def)
  show ?thesis
    using normalize_text_span_alphabet [of sample_db "[0xAC00, 0x4E00, 0x41, 0x42]"] a
    by (simp add: is_latin_def)
qed

text \<open>
  C9. The quality gates of the loop body, for every table that classifies the Hangul
  syllables and the ASCII letters and digits as alphanumeric. A line without any
  alphanumeric character is dropped, as is the line \<open>=== *** ---\<close>. A span whose Hangul
  count is below a fifth of its alphanumeric count and that has no Latin letter is
  dropped, as is the line \<open>1 2 3 %\<close>. A span with an alphanumeric character and a Hangul
  count of at least a fifth of the alphanumeric count is kept, and the Hangul example
  line, padded with whitespace, comes out trimmed.
\<close>

theorem normalize_text_quality_gates:
  assumes alnum: "\<forall>c. is_hangul c \<or> is_latin c \<or> is_digit c \<longrightarrow> isalnum db c"
  shows "(list_all (\<lambda>c. \<not> isalnum db c) r \<longrightarrow> process_line db r = None) \<and>
    normalize_text db [61, 61, 61, 32, 42, 42, 42, 32, 45, 45, 45] = [] \<and>
    (best_span_of db r = Some b \<and>
     5 * length (filter is_hangul b) < length (filter (isalnum db) b) \<and>
     \<not> list_ex is_latin b \<longrightarrow> process_line db r = None) \<and>
    normalize_text db [49, 32, 50, 32, 51, 32, 37] = [] \<and>
    (best_span_of db r = Some b \<and> 0 < length (filter (isalnum db) b) \<and>
     length (filter (isalnum db) b) \<le> 5 * length (filter is_hangul b)
       \<longrightarrow> process_line db r = Some b) \<and>
    normalize_text db ([32, 9] @ hangul_sentence @ [32]) = hangul_sentence"
proof -
  have g1: "process_line db r = None" if "list_all (\<lambda>c. \<not> isalnum db c) r"
  proof -
    from that alnum have "list_all (\<lambda>c. \<not> span_start c) r"
      by (auto simp: list_all_iff span_start_def)
    then show ?thesis by (rule process_line_no_start)
  qed
  have e1: "normalize_text db [61, 61, 61, 32, 42, 42, 42, 32, 45, 45, 45] = []"
  proof -
    have "split_nl (clean [61, 61, 61, 32, 42, 42, 42, 32, 45, 45, 45])
        = [[61, 61, 61, 32, 42, 42, 42, 32, 45, 45, 45]]"
      by (simp add: clean_def replace_cr_def remove_nul_def remove_control_def is_control_def)
    moreover have "process_line db [61, 61, 61, 32, 42, 42, 42, 32, 45, 45, 45] = None"
      by (rule process_line_no_start)
        (simp add: span_start_def is_hangul_def is_latin_def is_digit_def)
    ultimately show ?thesis
      by (simp add: normalize_text_def sanitized_lines_def List.map_filter_simps)
  qed
  have g2: "process_line db r = None"
    if "best_span_of db r = Some b" "5 * length (filter is_hangul b) < length (filter (isalnum db) b)"
      "\<not> list_ex is_latin b"
    using that by (simp add: process_line_def quality_gate_def Let_def)
  have d: "isalnum db 49" "isalnum db 50" "isalnum db 51"
    using alnum by (simp_all add: is_digit_def)
  have e2: "normalize_text db [49, 32, 50, 32, 51, 32, 37] = []"
    using d by (cases "isalnum db 32") (simp_all add: normalize_eval)
  have g3: "process_line db r = Some b"
    if "best_span_of db r = Some b" "0 < length (filter (isalnum db) b)"
      "length (filter (isalnum db) b) \<le> 5 * length (filter is_hangul b)"
    using that by (simp add: process_line_def quality_gate_def Let_def)
  have h: "isalnum db c" if "0xAC00 \<le> c \<and> c \<le> 0xD7A3" for c
    using that alnum by (simp add: is_hangul_def)
  have e3: "normalize_text db ([32, 9] @ hangul_sentence @ [32]) = hangul_sentence"
    by (cases "isalnum db 32")
      (simp_all add: normalize_eval hangul_sentence_def h rstrip_Cons_nonspace rstrip_space
        del: rstrip.simps(2))
  show ?thesis using g1 e1 g2 e2 g3 e3 by blast
qed

theorem normalize_text_quality_gates_witness:
  "list_all (\<lambda>c. \<not> isalnum sample_db c) [35, 32, 35] \<and>
   process_line sample_db [35, 32, 35] = None \<and>
   best_span_of sample_db [49, 50, 51, 52, 53, 54, 0xAC00, 37] = Some [49, 50, 51, 52, 53, 54, 0xAC00] \<and>
   process_line sample_db [49, 50, 51, 52, 53, 54, 0xAC00, 37] = None \<and>
   best_span_of sample_db [49, 50, 51, 52, 0xAC00, 37] = Some [49, 50, 51, 52, 0xAC00] \<and>
   process_line sample_db [49, 50, 51, 52, 0xAC00, 37] = Some [49, 50, 51, 52, 0xAC00]"
proof -
  have a: "\<forall>c. is_hangul c \<or> is_latin c \<or> is_digit c \<longrightarrow> isalnum sample_db c"
    by (simp add: sample_db_def)
  have b: "list_all (\<lambda>c. \<not> isalnum sample_db c) [35, 32, 35]"
    by (simp add: sample_db_def is_hangul_def is_latin_def is_digit_def)
  have c: "best_span_of sample_db [49, 50, 51, 52, 53, 54, 0xAC00, 37]
      = Some [49, 50, 51, 52, 53, 54, 0xAC00]"
    by (simp add: normalize_eval sample_db_def)
  have d: "best_span_of sample_db [49, 50, 51, 52, 0xAC00, 37] = Some [49, 50, 51, 52, 0xAC00]"
    by (simp add: normalize_eval sample_db_def)
  show ?thesis
    using a b c d
      normalize_text_quality_gates [OF a, of "[35, 32, 35]"]
      normalize_text_quality_gates [OF a, of "[49, 50, 51, 52, 53, 54, 0xAC00, 37]"
        "[49, 50, 51, 52, 53, 54, 0xAC00]"]
      normalize_text_quality_gates [OF a, of "[49, 50, 51, 52, 0xAC00, 37]"
        "[49, 50, 51, 52, 0xAC00]"]
    by (simp add: sample_db_def is_hangul_def is_latin_def is_digit_def)
qed

section \<open>Properties of smart_decode\<close>

lemma printable_ratio_nonneg: "0 \<le> printable_ratio db t"
  by (simp add: printable_ratio_def)

lemma hangul_ratio_nonneg: "0 \<le> hangul_ratio db t"
  by (simp add: hangul_ratio_def)

lemma score_text_nonneg: "0 \<le> score_text db t"
  using printable_ratio_nonneg [of db t] hangul_ratio_nonneg [of db t]
  by (simp add: score_text_def)

lemma scan_inv_initial: "scan_inv sc ([], - 1) []"
  by (simp add: scan_inv_def)

lemma scan_inv_step:
  assumes pos: "\<forall>t. - 1 < sc t" and inv: "scan_inv sc best seen" and low: "\<not> 12 / 10 < sc txt"
  shows "scan_inv sc (if snd best < sc txt then (txt, sc txt) else best) (seen @ [txt])"
proof (cases "snd best < sc txt")
  case True
  with inv low show ?thesis by (auto simp: scan_inv_def)
next
  case False
  have "seen \<noteq> []"
  proof
    assume "seen = []"
    with inv have "snd best = - 1" by (simp add: scan_inv_def)
    with False pos show False by (simp add: not_less)
  qed
  with inv low False show ?thesis by (auto simp: scan_inv_def)
qed

lemma scan_outcome:
  assumes pos: "\<forall>t. - 1 < sc t"
  shows "scan_inv sc best seen \<Longrightarrow> scan dec sc raw cands best seen = (r, seen') \<Longrightarrow>
    (case r of
       Return txt \<Rightarrow> txt \<in> set seen' \<and> (\<forall>t\<in>set seen'. sc t \<le> sc txt)
     | Fallthrough b \<Rightarrow> scan_inv sc b seen')"
proof (induction cands arbitrary: best seen)
  case Nil
  then show ?case by auto
next
  case (Cons cand cands)
  obtain enc kw where cand: "cand = (enc, kw)" by (cases cand)
  show ?case
  proof (cases "dec enc kw raw")
    case None
    with Cons cand show ?thesis by simp
  next
    case (Some tx)
    show ?thesis
    proof (cases "12 / 10 < sc tx")
      case True
      with Cons.prems Some cand have r: "r = Return tx" and s: "seen' = seen @ [tx]" by simp_all
      have "\<forall>t\<in>set seen. sc t \<le> sc tx"
        using Cons.prems(1) True by (fastforce simp: scan_inv_def)
      with r s show ?thesis by simp
    next
      case False
      let ?best = "if snd best < sc tx then (tx, sc tx) else best"
      have "scan_inv sc ?best (seen @ [tx])"
        using pos Cons.prems(1) False by (rule scan_inv_step)
      moreover have "scan dec sc raw cands ?best (seen @ [tx]) = (r, seen')"
        using Cons.prems(2) Some cand False by simp
      ultimately show ?thesis by (rule Cons.IH)
    qed
  qed
qed

lemma smart_decode_run_best:
  assumes pos: "\<forall>t. - 1 < sc t" and run: "smart_decode_run dec sc raw = (res, seen)"
  shows "(\<forall>t\<in>set seen. sc t \<le> sc res) \<and> (res \<in> set seen \<or> seen = [] \<and> res = [])"
proof -
  let ?cands = "(if looks_utf16 raw then wide_candidates else []) @ legacy_candidates"
  obtain r1 s1 where first: "scan dec sc raw ?cands ([], - 1) [] = (r1, s1)"
    by (cases "scan dec sc raw ?cands ([], - 1) []")
  have o1: "case r1 of Return txt \<Rightarrow> txt \<in> set s1 \<and> (\<forall>t\<in>set s1. sc t \<le> sc txt)
      | Fallthrough b \<Rightarrow> scan_inv sc b s1"
    using pos scan_inv_initial first by (rule scan_outcome)
  show ?thesis
  proof (cases r1)
    case (Return tx)
    with run first have "res = tx" "seen = s1" by (simp_all add: smart_decode_run_def)
    with o1 Return show ?thesis by simp
  next
    case (Fallthrough b)
    obtain bt bs where b: "b = (bt, bs)" by (cases b)
    note F1 = Fallthrough
    from o1 Fallthrough have inv: "scan_inv sc b s1" by simp
    have final: "(\<forall>t\<in>set s. sc t \<le> sc (fst b')) \<and> (fst b' \<in> set s \<or> s = [] \<and> fst b' = [])"
      if "scan_inv sc b' s" for b' s
      using that by (cases "s = []") (auto simp: scan_inv_def)
    show ?thesis
    proof (cases "looks_utf16 raw \<and> bs < 9 / 10 \<and> 4 \<le> length raw")
      case False
      with run first F1 b have "res = bt" "seen = s1"
        by (auto simp: smart_decode_run_def)
      with final [OF inv] b show ?thesis by simp
    next
      case True
      obtain r2 s2 where second:
        "scan dec sc (every_other raw) legacy_candidates (bt, bs) s1 = (r2, s2)"
        by (cases "scan dec sc (every_other raw) legacy_candidates (bt, bs) s1")
      have o2: "case r2 of Return txt \<Rightarrow> txt \<in> set s2 \<and> (\<forall>t\<in>set s2. sc t \<le> sc txt)
          | Fallthrough b \<Rightarrow> scan_inv sc b s2"
        using pos inv second unfolding b by (rule scan_outcome)
      show ?thesis
      proof (cases r2)
        case (Return tx)
        with run first F1 b True second have "res = tx" "seen = s2"
          by (simp_all add: smart_decode_run_def)
        with o2 Return show ?thesis by simp
      next
        case (Fallthrough b2)
        obtain bt2 bs2 where b2: "b2 = (bt2, bs2)" by (cases b2)
        from run first F1 b True second Fallthrough b2 have "res = bt2" "seen = s2"
          by (simp_all add: smart_decode_run_def)
        moreover from o2 Fallthrough have "scan_inv sc b2 s2" by simp
        ultimately show ?thesis using final [of b2 s2] b2 by simp
      qed
    qed
  qed
qed

lemma scan_empty_texts:
  assumes "\<forall>enc kw. dec enc kw raw = None \<or> dec enc kw raw = Some []"
  shows "fst best = [] \<Longrightarrow>
    (case fst (scan dec sc raw cands best seen) of Return t \<Rightarrow> t = [] | Fallthrough b \<Rightarrow> fst b = [])"
proof (induction cands arbitrary: best seen)
  case Nil
  then show ?case by simp
next
  case (Cons cand cands)
  obtain enc kw where cand: "cand = (enc, kw)" by (cases cand)
  have "dec enc kw raw = None \<or> dec enc kw raw = Some []" using assms by simp
  then show ?case
  proof (elim disjE)
    assume 1: "dec enc kw raw = None"
    with Cons cand show ?thesis by simp
  next
    assume 2: "dec enc kw raw = Some []"
    have "fst (if snd best < sc [] then ([], sc []) else best) = []"
      using Cons.prems by simp
    then have "case fst (scan dec sc raw cands (if snd best < sc [] then ([], sc []) else best)
          (seen @ [[]])) of Return t \<Rightarrow> t = [] | Fallthrough b \<Rightarrow> fst b = []"
      by (rule Cons.IH)
    with 2 cand show ?thesis by simp
  qed
qed

lemma smart_decode_empty:
  assumes "\<forall>enc kw. dec enc kw [] = None \<or> dec enc kw [] = Some []"
  shows "smart_decode dec sc [] = []"
proof -
  have l: "\<not> looks_utf16 []" by (simp add: looks_utf16_def)
  have "case fst (scan dec sc [] legacy_candidates ([], - 1) []) of
      Return t \<Rightarrow> t = [] | Fallthrough b \<Rightarrow> fst b = []"
    using assms by (rule scan_empty_texts) simp
  then show ?thesis
    unfolding smart_decode_def smart_decode_run_def using l
    by (cases "scan dec sc [] legacy_candidates ([], - 1) []")
      (auto split: scan_result.splits prod.splits)
qed

lemmas decode_eval =
  smart_decode_def attempted_def smart_decode_run_def looks_utf16_def wide_candidates_def
  legacy_candidates_def ascii_or_replacement_def code_unit_def bad_unit_def score_text_def
  printable_ratio_def hangul_ratio_def sample_db_def is_hangul_def is_latin_def

section \<open>Claims about smart_decode\<close>

text \<open>
  C3. For every scoring function with values above the initial best score \<open>-1\<close> (the
  score of the program, a sum of two ratios, is never negative), every codec table and
  every byte buffer: the string that \<open>smart_decode\<close> returns scores at least as high as
  every candidate that was decoded and scored during the call, those of the narrowed
  buffer included, and it is one of these candidates unless none was decoded. When the
  codecs decode the empty buffer to the empty string or fail on it, \<open>smart_decode\<close> of
  the empty buffer is the empty string.
\<close>

theorem smart_decode_best_of:
  assumes "\<forall>t. - 1 < sc t"
  shows "(\<forall>t\<in>set (attempted dec sc raw). sc t \<le> sc (smart_decode dec sc raw)) \<and>
    (smart_decode dec sc raw \<in> set (attempted dec sc raw) \<or>
     attempted dec sc raw = [] \<and> smart_decode dec sc raw = []) \<and>
    ((\<forall>enc kw. dec enc kw [] = None \<or> dec enc kw [] = Some []) \<longrightarrow>
       smart_decode dec sc [] = [])"
proof -
  have "smart_decode_run dec sc raw = (smart_decode dec sc raw, attempted dec sc raw)"
    by (simp add: smart_decode_def attempted_def)
  with assms have "(\<forall>t\<in>set (attempted dec sc raw). sc t \<le> sc (smart_decode dec sc raw)) \<and>
    (smart_decode dec sc raw \<in> set (attempted dec sc raw) \<or>
     attempted dec sc raw = [] \<and> smart_decode dec sc raw = [])"
    by (rule smart_decode_run_best)
  then show ?thesis using smart_decode_empty [of dec sc] by blast
qed

theorem smart_decode_best_of_witness:
  "(\<forall>t. - 1 < score_text sample_db t) \<and>
   attempted sample_codecs (score_text sample_db) [0x48, 0xC5]
     = [[0x48, 0xFFFD], [0x48, 0xFFFD], [0x48, 0xFFFD]] \<and>
   smart_decode sample_codecs (score_text sample_db) [0x48, 0xC5] = [0x48, 0xFFFD] \<and>
   score_text sample_db [0x48, 0xFFFD] \<le> score_text sample_db [0x48, 0xFFFD] \<and>
   (\<forall>enc kw. sample_codecs enc kw [] = None \<or> sample_codecs enc kw [] = Some []) \<and>
   smart_decode sample_codecs (score_text sample_db) [] = []"
proof -
  have p: "\<forall>t. - 1 < score_text sample_db t"
  proof
    fix t
    have "0 \<le> score_text sample_db t" by (rule score_text_nonneg)
    then show "- 1 < score_text sample_db t" by simp
  qed
  have e: "\<forall>enc kw. sample_codecs enc kw [] = None \<or> sample_codecs enc kw [] = Some []"
  proof (intro allI)
    fix enc kw
    show "sample_codecs enc kw [] = None \<or> sample_codecs enc kw [] = Some []"
      by (cases enc) (simp_all add: ascii_or_replacement_def)
  qed
  have a: "attempted sample_codecs (score_text sample_db) [0x48, 0xC5]
     = [[0x48, 0xFFFD], [0x48, 0xFFFD], [0x48, 0xFFFD]]"
    by (simp add: decode_eval)
  have s: "smart_decode sample_codecs (score_text sample_db) [0x48, 0xC5] = [0x48, 0xFFFD]"
    by (simp add: decode_eval)
  show ?thesis
    using p e a s smart_decode_best_of [OF p, of sample_codecs "[0x48, 0xC5]"] by simp
qed

text \<open>
  C4. As stated the claim fails: the bytes \<open>48 C5\<close> are the little-endian encoding of
  the syllable U+C548, whose score \<open>1.4\<close> exceeds \<open>1.2\<close>, but they contain no zero byte, so
  the little-endian candidate is not tried and the result is the common decoding of the
  three 8-bit oriented codecs.
\<close>

theorem smart_decode_utf16le_counterexample:
  "sample_codecs UTF16LE Strict [0x48, 0xC5] = Some [0xC548] \<and>
   12 / 10 < score_text sample_db [0xC548] \<and>
   \<not> looks_utf16 [0x48, 0xC5] \<and>
   smart_decode sample_codecs (score_text sample_db) [0x48, 0xC5] = [0x48, 0xFFFD] \<and>
   smart_decode sample_codecs (score_text sample_db) [0x48, 0xC5] \<noteq> [0xC548]"
  by (simp add: decode_eval)

text \<open>
  C4, amended. When more than a fifth of the first 4096 bytes are zero, the strict
  little-endian decoding succeeds and its score exceeds \<open>1.2\<close>, \<open>smart_decode\<close> returns the
  little-endian decoding, whatever the other codecs would return.
\<close>

theorem smart_decode_utf16le_selected:
  assumes "looks_utf16 raw" and "dec UTF16LE Strict raw = Some t" and "12 / 10 < sc t"
  shows "smart_decode dec sc raw = t"
  using assms by (simp add: smart_decode_def smart_decode_run_def wide_candidates_def)

theorem smart_decode_utf16le_selected_witness:
  "looks_utf16 [0x00, 0xAC, 0x20, 0x00] \<and>
   sample_codecs UTF16LE Strict [0x00, 0xAC, 0x20, 0x00] = Some [0xAC00, 0x20] \<and>
   12 / 10 < score_text sample_db [0xAC00, 0x20] \<and>
   smart_decode sample_codecs (score_text sample_db) [0x00, 0xAC, 0x20, 0x00] = [0xAC00, 0x20]"
proof -
  have a: "looks_utf16 [0x00, 0xAC, 0x20, 0x00]" by (simp add: looks_utf16_def)
  have b: "sample_codecs UTF16LE Strict [0x00, 0xAC, 0x20, 0x00] = Some [0xAC00, 0x20]"
    by (simp add: code_unit_def)
  have c: "12 / 10 < score_text sample_db [0xAC00, 0x20]"
    by (simp add: score_text_def printable_ratio_def hangul_ratio_def sample_db_def
        is_hangul_def is_latin_def)
  show ?thesis
    using a b c
      smart_decode_utf16le_selected [of "[0x00, 0xAC, 0x20, 0x00]" sample_codecs
        "[0xAC00, 0x20]" "score_text sample_db"]
    by simp
qed

section \<open>Properties of the strategies\<close>

lemma try_hwpx_caught: "try_hwpx_body e path = Inl err \<Longrightarrow> try_hwpx e path = None"
  by (simp add: try_hwpx_def)

lemma extract_text_run_after_hwpx:
  assumes "text_of (try_hwpx e path) = []"
  shows "take 2 (fst (extract_text_run e path)) = [Hwpx, if has_pyhwp e then Pyhwp else HwpExtract]"
  using assms by (simp add: extract_text_run_def Let_def split: prod.splits)

lemma extract_text_run_hwpx:
  assumes "text_of (try_hwpx e path) \<noteq> []"
  shows "extract_text_run e path = ([Hwpx], Inr (text_of (try_hwpx e path), ''hwpx''))"
  using assms by (simp add: extract_text_run_def Let_def)


lemma fallback_error:
  assumes "fallback e path perr = Inl err"
  shows "\<exists>err'. extract_with_hwp_extract e path = Inl err' \<and>
    err = Exn RuntimeError (message err' @ pyhwp_suffix perr)"
  using assms by (auto simp: fallback_def split: sum.splits)

lemma extract_text_error:
  assumes "extract_text e path = Inl err"
  shows "\<exists>err'. extract_with_hwp_extract e path = Inl err' \<and>
    err = Exn RuntimeError
      (message err' @ (if has_pyhwp e then pyhwp_suffix (snd (extract_with_pyhwp e path)) else ''''))"
proof (cases "has_pyhwp e")
  case True
  obtain t perr where p: "extract_with_pyhwp e path = (t, perr)"
    by (cases "extract_with_pyhwp e path")
  from assms True p have "fallback e path perr = Inl err"
    by (auto simp: extract_text_def extract_text_run_def Let_def split: if_splits)
  then show ?thesis using True p fallback_error [of e path perr err] by simp
next
  case False
  with assms have "fallback e path None = Inl err"
    by (auto simp: extract_text_def extract_text_run_def Let_def split: if_splits)
  then show ?thesis using False fallback_error [of e path None err]
    by (simp add: pyhwp_suffix_def)
qed

lemma extract_text_error_class: "extract_text e path = Inl err \<Longrightarrow> exn_class err = RuntimeError"
  using extract_text_error [of e path err] by auto

lemma main_handler_generic:
  "main_handler e path = None \<or> main_handler e path = Some ExceptionClause"
  using extract_text_error_class [of e path]
  by (cases "extract_text e path") (auto simp: main_handler_def)

lemmas orch_eval =
  extract_text_def invoked_def extract_text_run_def fallback_def pyhwp_suffix_def
  extract_with_hwp_extract_def extract_with_pyhwp_def pyhwp_body_def pyhwp_text_of_def
  decode_utf8_replace_def bytes_blank_def try_hwpx_def try_hwpx_body_def read_section_def
  is_section_entry_def startswith_def endswith_def ustr_def text_of_def zip_signature_def
  no_text_message_def ascii_lower_def binary_env_def main_handler_def

section \<open>Markup, Korean text and the container strategy\<close>

lemma strip_tags_prefix: "60 \<notin> set xs \<Longrightarrow> strip_tags (xs @ ys) = xs @ strip_tags ys"
  by (induction xs) auto

lemma takeWhile_until: "z \<notin> set a \<Longrightarrow> takeWhile (\<lambda>x. x \<noteq> z) (a @ z # rest) = a"
  by (induction a) auto

lemma dropWhile_until: "z \<notin> set a \<Longrightarrow> dropWhile (\<lambda>x. x \<noteq> z) (a @ z # rest) = z # rest"
  by (induction a) auto

lemma strip_tags_tag:
  assumes "a \<noteq> []" and "62 \<notin> set a"
  shows "strip_tags (60 # a @ 62 # rest) = 32 # strip_tags rest"
proof -
  have t: "takeWhile (\<lambda>x. x \<noteq> 62) (a @ 62 # rest) = a"
    using assms(2) by (rule takeWhile_until)
  have d: "dropWhile (\<lambda>x. x \<noteq> 62) (a @ 62 # rest) = 62 # rest"
    using assms(2) by (rule dropWhile_until)
  show ?thesis using assms(1) by (simp add: t d)
qed

lemma strip_tags_markup:
  "list_all (\<lambda>a. a \<noteq> [] \<and> 62 \<notin> set a) tags \<Longrightarrow>
     strip_tags (markup tags @ rest) = replicate (length tags) 32 @ strip_tags rest"
proof (induction tags)
  case Nil
  show ?case by simp
next
  case (Cons a tags)
  then have a: "a \<noteq> []" "62 \<notin> set a" by simp_all
  have "markup (a # tags) @ rest = 60 # a @ 62 # (markup tags @ rest)" by simp
  then show ?case using strip_tags_tag [OF a] Cons by simp
qed

lemma collapse_ws_spaces: "collapse_ws (replicate m 32) = (if m = 0 then [] else [32])"
proof (cases m)
  case 0
  then show ?thesis by simp
next
  case (Suc k)
  have "dropWhile isspace (replicate k 32) = []" by (simp add: isspace_def)
  with Suc show ?thesis by (simp add: isspace_def)
qed

lemma collapse_ws_lead:
  assumes "\<not> isspace c"
  shows "dropWhile isspace (collapse_ws (replicate n 32 @ c # r))
    = dropWhile isspace (collapse_ws (c # r))"
proof (cases n)
  case 0
  then show ?thesis by simp
next
  case (Suc k)
  have s: "isspace 32" by (simp add: isspace_def)
  have "dropWhile isspace (replicate k 32 @ c # r) = c # r"
    using assms s by (induction k) simp_all
  with Suc s show ?thesis by (simp del: collapse_ws.simps(2) add: collapse_ws.simps(2) [of 32])
qed

lemma collapse_ws_trail:
  "single_spaced xs \<Longrightarrow> xs \<noteq> [] \<Longrightarrow> \<not> isspace (last xs) \<Longrightarrow>
     collapse_ws (xs @ replicate m 32) = xs @ (if m = 0 then [] else [32])"
proof (induction xs)
  case Nil
  then show ?case by simp
next
  case (Cons c cs)
  show ?case
  proof (cases "cs = []")
    case True
    with Cons.prems have "\<not> isspace c" by simp
    with True show ?thesis using collapse_ws_spaces [of m] by simp
  next
    case False
    then obtain d ds where cs: "cs = d # ds" by (cases cs) auto
    from Cons.prems False have ih: "collapse_ws (cs @ replicate m 32) = cs @ (if m = 0 then [] else [32])"
      using Cons.IH by simp
    show ?thesis
    proof (cases "isspace c")
      case True
      with Cons.prems(1) cs have "\<not> isspace d" by simp
      then have "dropWhile isspace (cs @ replicate m 32) = cs @ replicate m 32" using cs by simp
      with True ih Cons.prems(1) show ?thesis by simp
    next
      case False
      with ih show ?thesis by simp
    qed
  qed
qed

lemma rstrip_spaces: "list_all isspace ys \<Longrightarrow> rstrip ys = []"
  by (induction ys) auto

lemma rstrip_trail: "list_all isspace ys \<Longrightarrow> rstrip (xs @ ys) = rstrip xs"
  by (induction xs) (auto simp: rstrip_spaces)

lemma strip_collapse_padded:
  assumes "span_shape b"
  shows "strip (collapse_ws (replicate n 32 @ b @ replicate m 32)) = b"
proof -
  from assms obtain c r where b: "b = c # r" and c: "span_start c"
    by (cases b) (auto simp: span_shape_def)
  have nsp: "\<not> isspace c" using c by (rule span_start_not_space)
  from assms have ss: "single_spaced b" and rs: "rstrip b = b" by (simp_all add: span_shape_def)
  have ne: "b \<noteq> []" using b by simp
  have last: "\<not> isspace (last b)" using rs ne by (rule rstrip_fixed_last)
  let ?tail = "if m = 0 then [] else [32::nat]"
  have "dropWhile isspace (collapse_ws (replicate n 32 @ b @ replicate m 32))
      = dropWhile isspace (collapse_ws (b @ replicate m 32))"
    using collapse_ws_lead [OF nsp, of n "r @ replicate m 32"] b by simp
  also have "\<dots> = dropWhile isspace (b @ ?tail)"
    using collapse_ws_trail [OF ss ne last, of m] by simp
  also have "\<dots> = b @ ?tail" using b nsp by simp
  finally have "strip (collapse_ws (replicate n 32 @ b @ replicate m 32)) = rstrip (b @ ?tail)"
    by (simp add: strip_def)
  also have "\<dots> = rstrip b" by (rule rstrip_trail) (simp add: isspace_def)
  finally show ?thesis using rs by simp
qed

lemma best_span_of_padded:
  assumes "span_shape b"
  shows "best_span_of db (replicate n 32 @ b @ replicate m 32) = Some b"
proof -
  have sp: "is_allowed_char db 32" by (simp add: is_allowed_char_def isspace_def)
  have f: "filter (is_allowed_char db) (replicate n 32 @ b @ replicate m 32)
      = replicate n 32 @ b @ replicate m 32"
    using sp span_shape_filter [OF assms, of db] by simp
  have 1: "strip (collapse_ws (filter (is_allowed_char db) (replicate n 32 @ b @ replicate m 32))) = b"
    unfolding f using assms by (rule strip_collapse_padded)
  have 2: "strip (collapse_ws (filter (is_allowed_char db) b)) = b"
    using span_shape_filter [OF assms, of db] span_shape_collapse [OF assms]
      span_shape_strip [OF assms] by simp
  have "best_span_of db (replicate n 32 @ b @ replicate m 32) = best_span_of db b"
    unfolding best_span_of_def 1 2 ..
  then show ?thesis using span_shape_best_span_of [OF assms, of db] by simp
qed

lemma clean_plain:
  assumes "\<forall>c\<in>set xs. c \<noteq> 13 \<and> c \<noteq> 10 \<and> c \<noteq> 0 \<and> \<not> is_control c"
  shows "clean xs = xs"
proof -
  have a: "13 \<notin> set xs" "10 \<notin> set xs" using assms by auto
  have b: "remove_nul xs = xs" unfolding remove_nul_def using assms by (simp add: filter_id_conv)
  have c: "remove_control xs = xs"
    unfolding remove_control_def using assms by (simp add: filter_id_conv)
  have d: "collapse_newlines xs = xs" using collapse_newlines_prefix [OF a(2), of "[]"] by simp
  show ?thesis unfolding clean_def by (simp add: replace_crlf_id replace_cr_id a b c d)
qed

lemma normalize_text_padded:
  assumes "span_line db b"
  shows "normalize_text db (replicate n 32 @ b @ replicate m 32) = b"
proof -
  let ?p = "replicate n 32 @ b @ replicate m 32"
  from assms have shape: "span_shape b" and gate: "quality_gate db b"
    by (simp_all add: span_line_def)
  have space: "(32::nat) \<noteq> 13 \<and> (32::nat) \<noteq> 10 \<and> (32::nat) \<noteq> 0 \<and> \<not> is_control 32"
    by (simp add: is_control_def)
  have inb: "c \<noteq> 13 \<and> c \<noteq> 10 \<and> c \<noteq> 0 \<and> \<not> is_control c" if "c \<in> set b" for c
    using span_char_plain [OF span_shape_chars [OF shape that]] .
  have mem: "c = 32 \<or> c \<in> set b" if "c \<in> set ?p" for c
    using that by (simp split: if_splits) blast
  have chars: "\<forall>c\<in>set ?p. c \<noteq> 13 \<and> c \<noteq> 10 \<and> c \<noteq> 0 \<and> \<not> is_control c"
  proof
    fix c assume "c \<in> set ?p"
    then have "c = 32 \<or> c \<in> set b" by (rule mem)
    then show "c \<noteq> 13 \<and> c \<noteq> 10 \<and> c \<noteq> 0 \<and> \<not> is_control c"
    proof
      assume "c = 32"
      with space show ?thesis by simp
    next
      assume "c \<in> set b"
      then show ?thesis by (rule inb)
    qed
  qed
  have cl: "clean ?p = ?p" using chars by (rule clean_plain)
  have "10 \<notin> set ?p" using chars by blast
  then have sp: "split_nl ?p = [?p]" by (rule split_nl_line)
  have bs: "best_span_of db ?p = Some b" using shape by (rule best_span_of_padded)
  have pl: "process_line db ?p = Some b"
    unfolding process_line_def bs using gate by simp
  have "sanitized_lines db ?p = [b]"
    unfolding sanitized_lines_def cl sp by (simp only: List.map_filter_simps pl option.case)
  then show ?thesis unfolding normalize_text_def by simp
qed

lemma hangul_words_head: "hangul_words b \<Longrightarrow> b \<noteq> [] \<and> is_hangul (hd b)"
  by (induction b rule: hangul_words.induct) auto

lemma hangul_words_chars: "hangul_words b \<Longrightarrow> c \<in> set b \<Longrightarrow> is_hangul c \<or> c = 32"
  by (induction b rule: hangul_words.induct) (auto split: if_splits)

lemma is_hangul_not_space: "is_hangul c \<Longrightarrow> \<not> isspace c"
  by (auto simp: is_hangul_def isspace_def)

lemma hangul_words_single_spaced: "hangul_words b \<Longrightarrow> single_spaced b"
proof (induction b rule: hangul_words.induct)
  case 1
  then show ?case by simp
next
  case (2 c)
  then show ?case by (simp add: is_hangul_not_space)
next
  case (3 c d cs)
  from "3.prems" have c: "is_hangul c" by simp
  show ?case
  proof (cases "d = 32")
    case True
    with "3.prems" have w: "hangul_words cs" by simp
    then have "single_spaced cs" using "3.IH"(1) True by simp
    moreover from w have "cs \<noteq> [] \<and> is_hangul (hd cs)" by (rule hangul_words_head)
    then have "case cs of [] \<Rightarrow> True | e # _ \<Rightarrow> \<not> isspace e"
      by (cases cs) (auto simp: is_hangul_not_space)
    ultimately show ?thesis using c True by (simp add: is_hangul_not_space)
  next
    case False
    with "3.prems" have "hangul_words (d # cs)" by simp
    then have "single_spaced (d # cs)" using "3.IH"(2) False by simp
    then show ?thesis using c by (simp add: is_hangul_not_space)
  qed
qed

lemma hangul_words_rstrip: "hangul_words b \<Longrightarrow> rstrip b = b"
proof (induction b rule: hangul_words.induct)
  case 1
  then show ?case by simp
next
  case (2 c)
  then show ?case by (simp add: is_hangul_not_space)
next
  case (3 c d cs)
  from "3.prems" have c: "\<not> isspace c" by (simp add: is_hangul_not_space)
  show ?case
  proof (cases "d = 32")
    case True
    with "3.prems" have w: "hangul_words cs" by simp
    then have r: "rstrip cs = cs" using "3.IH"(1) True by simp
    from w have "cs \<noteq> []" using hangul_words_head by blast
    with r c True show ?thesis by simp
  next
    case False
    with "3.prems" have "hangul_words (d # cs)" by simp
    then have "rstrip (d # cs) = d # cs" using "3.IH"(2) False by simp
    with c show ?thesis by simp
  qed
qed

lemma hangul_words_span_shape:
  assumes "hangul_words b"
  shows "span_shape b"
proof -
  from hangul_words_head [OF assms] obtain c r where b: "b = c # r" and c: "is_hangul c"
    by (cases b) auto
  have sb: "span_body x" if "is_hangul x \<or> x = 32" for x
    using that by (auto simp: span_body_def span_start_def isspace_def)
  have body: "list_all span_body b"
    unfolding list_all_iff using hangul_words_chars [OF assms] sb by blast
  show ?thesis
    unfolding span_shape_def
    using b c body hangul_words_single_spaced [OF assms] hangul_words_rstrip [OF assms]
    by (simp add: span_start_def)
qed

lemma hangul_words_gate:
  assumes "hangul_words b" and "\<forall>c. is_hangul c \<longrightarrow> isalnum db c" and "\<not> isalnum db 32"
  shows "quality_gate db b"
proof -
  have "filter (isalnum db) b = filter is_hangul b"
  proof (rule filter_cong [OF refl])
    fix c assume "c \<in> set b"
    then have "is_hangul c \<or> c = 32" using hangul_words_chars [OF assms(1)] by blast
    then show "isalnum db c = is_hangul c" using assms(2,3) by (auto simp: is_hangul_def)
  qed
  moreover have "filter is_hangul b \<noteq> []"
    using hangul_words_head [OF assms(1)] by (cases b) auto
  ultimately show ?thesis by (simp add: quality_gate_def Let_def)
qed

lemma hangul_words_no_tag: "hangul_words b \<Longrightarrow> 60 \<notin> set b"
  using hangul_words_chars [of b 60] by (auto simp: is_hangul_def)

lemma normalize_text_wrapped:
  assumes "hangul_words b"
    and "\<forall>c. is_hangul c \<longrightarrow> isalnum db c" and "\<not> isalnum db 32"
    and "list_all (\<lambda>a. a \<noteq> [] \<and> 62 \<notin> set a) opening"
    and "list_all (\<lambda>a. a \<noteq> [] \<and> 62 \<notin> set a) closing"
  shows "normalize_text db (strip_tags (markup opening @ b @ markup closing)) = b"
proof -
  have "strip_tags (markup opening @ b @ markup closing)
      = replicate (length opening) 32 @ strip_tags (b @ markup closing)"
    using assms(4) by (rule strip_tags_markup)
  also have "strip_tags (b @ markup closing) = b @ strip_tags (markup closing @ [])"
    using hangul_words_no_tag [OF assms(1)] by (simp add: strip_tags_prefix)
  also have "strip_tags (markup closing @ []) = replicate (length closing) 32 @ strip_tags []"
    using assms(5) by (rule strip_tags_markup)
  finally have s: "strip_tags (markup opening @ b @ markup closing)
      = replicate (length opening) 32 @ b @ replicate (length closing) 32" by simp
  have "span_line db b"
    using hangul_words_span_shape [OF assms(1)] hangul_words_gate [OF assms(1-3)]
    by (simp add: span_line_def)
  then show ?thesis unfolding s by (rule normalize_text_padded)
qed

section \<open>Claims about the strategies\<close>

text \<open>
  C1. The code does not do what the claim says. For a protected document the raw-stream
  extractor raises its no-password exception inside \<open>extract_with_hwp_extract\<close>; the
  \<open>except Exception\<close> clause of \<open>extract_text\<close> catches it and raises a \<open>RuntimeError\<close>
  with the same message and the suffix, the class of the terminal failure. The clause of
  \<open>main\<close> for the no-password exception is therefore not the one that handles it. When
  the extractor, called with \<open>raise_pw_error=False\<close>, yields no stream instead of raising,
  the outcome is the terminal failure itself.
\<close>

theorem extract_text_no_password_wrapped:
  "extract_with_hwp_extract encrypted_env ''doc.hwp''
     = Inl (Exn HWPExtractorNoPasswordError ''no password'') \<and>
   extract_text encrypted_env ''doc.hwp''
     = Inl (Exn RuntimeError ''no password (pyhwp failed: cannot parse)'') \<and>
   main_handler encrypted_env ''doc.hwp'' = Some ExceptionClause \<and>
   extract_text (binary_env (Inr [])) ''doc.hwp''
     = Inl (Exn RuntimeError ''No textual content found in HWP file. (pyhwp failed: cannot parse)'') \<and>
   main_handler (binary_env (Inr [])) ''doc.hwp'' = Some ExceptionClause"
  by (simp add: orch_eval encrypted_env_def)




text \<open>
  C6. As stated the claim fails for a container with a second section entry. When
  \<open>Contents/Section1.xml\<close> cannot be read, the exception makes the whole container
  strategy inapplicable although \<open>Contents/Section0.xml\<close> holds Korean text in markup:
  the other two strategies are called and, here, the extraction fails. When it can be
  read, the returned text is that of both sections.
\<close>

theorem extract_text_container_counterexample:
  "read_file (second_section_env (Inl (Exn BadZipFile ''Bad CRC-32''))) ''doc.hwpx''
     = Inr [0x50, 0x4B, 0x03, 0x04, 0x14, 0x00] \<and>
   (case open_zip (second_section_env (Inl (Exn BadZipFile ''Bad CRC-32''))) ''doc.hwpx'' of
      Inl err \<Rightarrow> [] | Inr archive \<Rightarrow> namelist archive)
     = [ustr ''mimetype'', ustr ''Contents/Section0.xml'', ustr ''Contents/Section1.xml''] \<and>
   sample_codecs UTF8 Strict section0_xml
     = Some (markup [ustr ''hp:t''] @ [0xC548, 0xB155] @ markup [ustr ''/hp:t'']) \<and>
   normalize_text sample_db
       (strip_tags (markup [ustr ''hp:t''] @ [0xC548, 0xB155] @ markup [ustr ''/hp:t'']))
     = [0xC548, 0xB155] \<and>
   try_hwpx (second_section_env (Inl (Exn BadZipFile ''Bad CRC-32''))) ''doc.hwpx'' = None \<and>
   invoked (second_section_env (Inl (Exn BadZipFile ''Bad CRC-32''))) ''doc.hwpx''
     = [Hwpx, Pyhwp, HwpExtract] \<and>
   extract_text (second_section_env (Inl (Exn BadZipFile ''Bad CRC-32''))) ''doc.hwpx''
     = Inl (Exn RuntimeError
         ''Not an OLE file (pyhwp failed: Not an OLE2 Compound Binary File.)'') \<and>
   extract_text (second_section_env (Inr section1_xml)) ''doc.hwpx''
     = Inr ([0xC548, 0xB155, 10, 0x41, 0x42], ''hwpx'')"
  by (simp add: orch_eval second_section_env_def container_env_def sample_archive_def
      section0_xml_def section1_xml_def is_cont_def normalize_eval sample_db_def)

text \<open>
  C6, amended. When the file starts with the zip signature, \<open>Contents/Section0.xml\<close> is
  the only section entry of the archive, and its bytes decode as UTF-8 to Korean text
  (words of Hangul syllables with one space between them) with any number of tags
  before and after it, \<open>extract_text\<close> returns exactly that Korean text with the label
  \<open>hwpx\<close>, and \<open>try_hwpx\<close> is the only strategy function called. The character table is
  one that classifies the Hangul syllables as alphanumeric and the space as not.
\<close>

theorem extract_text_container_first:
  assumes "\<forall>c. is_hangul c \<longrightarrow> isalnum (tables e) c"
    and "\<not> isalnum (tables e) 32"
    and "read_file e path = Inr content"
    and "take 4 content = zip_signature"
    and "open_zip e path = Inr archive"
    and "filter (is_section_entry e) (namelist archive) = [ustr ''Contents/Section0.xml'']"
    and "read_entry archive (ustr ''Contents/Section0.xml'') = Inr xml_bytes"
    and "codec e UTF8 Strict xml_bytes = Some (markup opening @ korean @ markup closing)"
    and "list_all (\<lambda>a. a \<noteq> [] \<and> 62 \<notin> set a) opening"
    and "list_all (\<lambda>a. a \<noteq> [] \<and> 62 \<notin> set a) closing"
    and "hangul_words korean"
  shows "extract_text e path = Inr (korean, ''hwpx'') \<and> invoked e path = [Hwpx]"
proof -
  let ?xml = "markup opening @ korean @ markup closing"
  have n: "normalize_text (tables e) (strip_tags ?xml) = korean"
    using assms(11,1,2,9,10) by (rule normalize_text_wrapped)
  have "read_sections e archive [ustr ''Contents/Section0.xml''] = Inr [strip_tags ?xml]"
    using assms(7,8) by (simp add: read_section_def)
  then have "try_hwpx e path = Some (normalize_text (tables e) (strip_tags ?xml))"
    using assms(3-6) by (simp add: try_hwpx_def try_hwpx_body_def)
  then have t: "text_of (try_hwpx e path) = korean" using n by (simp add: text_of_def)
  have "korean \<noteq> []" using hangul_words_head [OF assms(11)] by simp
  then show ?thesis
    using t extract_text_run_hwpx [of e path] by (simp add: extract_text_def invoked_def)
qed

theorem extract_text_container_first_witness:
  "isalnum (tables container_env) 0xC548 \<and> \<not> isalnum (tables container_env) 32 \<and>
   read_file container_env ''doc.hwpx'' = Inr [0x50, 0x4B, 0x03, 0x04, 0x14, 0x00] \<and>
   take 4 [0x50, 0x4B, 0x03, 0x04, 0x14, 0x00] = zip_signature \<and>
   open_zip container_env ''doc.hwpx'' = Inr sample_archive \<and>
   filter (is_section_entry container_env) (namelist sample_archive)
     = [ustr ''Contents/Section0.xml''] \<and>
   read_entry sample_archive (ustr ''Contents/Section0.xml'') = Inr section0_xml \<and>
   codec container_env UTF8 Strict section0_xml
     = Some (markup [ustr ''hp:t''] @ [0xC548, 0xB155] @ markup [ustr ''/hp:t'']) \<and>
   list_all (\<lambda>a. a \<noteq> [] \<and> 62 \<notin> set a) [ustr ''hp:t''] \<and>
   list_all (\<lambda>a. a \<noteq> [] \<and> 62 \<notin> set a) [ustr ''/hp:t''] \<and>
   hangul_words [0xC548, 0xB155] \<and>
   extract_text container_env ''doc.hwpx'' = Inr ([0xC548, 0xB155], ''hwpx'') \<and>
   invoked container_env ''doc.hwpx'' = [Hwpx]"
proof -
  have 1: "\<forall>c. is_hangul c \<longrightarrow> isalnum (tables container_env) c"
    by (simp add: container_env_def sample_db_def)
  have 2: "\<not> isalnum (tables container_env) 32"
    by (simp add: container_env_def sample_db_def is_hangul_def is_latin_def is_digit_def)
  have 3: "read_file container_env ''doc.hwpx'' = Inr [0x50, 0x4B, 0x03, 0x04, 0x14, 0x00]"
    by (simp add: container_env_def zip_signature_def)
  have 4: "take 4 [0x50, 0x4B, 0x03, 0x04, 0x14, 0x00] = zip_signature"
    by (simp add: zip_signature_def)
  have 5: "open_zip container_env ''doc.hwpx'' = Inr sample_archive"
    by (simp add: container_env_def)
  have 6: "filter (is_section_entry container_env) (namelist sample_archive)
     = [ustr ''Contents/Section0.xml'']"
    by (simp add: container_env_def sample_archive_def is_section_entry_def startswith_def
        endswith_def ustr_def ascii_lower_def)
  have 7: "read_entry sample_archive (ustr ''Contents/Section0.xml'') = Inr section0_xml"
    by (simp add: sample_archive_def)
  have 8: "codec container_env UTF8 Strict section0_xml
     = Some (markup [ustr ''hp:t''] @ [0xC548, 0xB155] @ markup [ustr ''/hp:t''])"
    by (simp add: container_env_def section0_xml_def is_cont_def ustr_def)
  have 9: "list_all (\<lambda>a. a \<noteq> [] \<and> 62 \<notin> set a) [ustr ''hp:t'']"
    "list_all (\<lambda>a. a \<noteq> [] \<and> 62 \<notin> set a) [ustr ''/hp:t'']"
    by (simp_all add: ustr_def)
  have 10: "hangul_words [0xC548, 0xB155]" by (simp add: is_hangul_def)
  have 11: "isalnum (tables container_env) 0xC548"
    using 1 by (simp add: is_hangul_def)
  show ?thesis
    using extract_text_container_first [OF 1 2 3 4 5 6 7 8 9 10] 2 3 4 5 6 7 8 9 10 11
    by simp
qed

text \<open>
  C7. \<open>try_hwpx\<close> returns a value for every environment and path. Whenever the block
  under its \<open>try\<close> raises, be it at reading the file, at opening the archive or at reading
  and decoding an entry, \<open>try_hwpx\<close> returns \<open>None\<close>, and \<open>extract_text\<close> goes on to the
  next strategy: the structured library if it was imported, the raw streams otherwise.
\<close>

theorem try_hwpx_never_raises:
  "(try_hwpx_body e path = Inl err \<longrightarrow>
      try_hwpx e path = None \<and>
      take 2 (invoked e path) = [Hwpx, if has_pyhwp e then Pyhwp else HwpExtract]) \<and>
   (read_file e path = Inl err \<longrightarrow> try_hwpx e path = None) \<and>
   (read_file e path = Inr content \<and> take 4 content = zip_signature \<and>
    open_zip e path = Inl err \<longrightarrow> try_hwpx e path = None) \<and>
   (read_file e path = Inr content \<and> take 4 content = zip_signature \<and>
    open_zip e path = Inr archive \<and>
    read_sections e archive (sort (filter (is_section_entry e) (namelist archive))) = Inl err
      \<longrightarrow> try_hwpx e path = None)"
proof -
  have a: "try_hwpx e path = None \<and>
      take 2 (invoked e path) = [Hwpx, if has_pyhwp e then Pyhwp else HwpExtract]"
    if "try_hwpx_body e path = Inl err"
  proof -
    from that have n: "try_hwpx e path = None" by (rule try_hwpx_caught)
    then have "text_of (try_hwpx e path) = []" by (simp add: text_of_def)
    then show ?thesis using n extract_text_run_after_hwpx [of e path] by (simp add: invoked_def)
  qed
  have b: "try_hwpx e path = None" if "read_file e path = Inl err"
    using that by (simp add: try_hwpx_def try_hwpx_body_def)
  have c: "try_hwpx e path = None"
    if "read_file e path = Inr content" "take 4 content = zip_signature" "open_zip e path = Inl err"
    using that by (simp add: try_hwpx_def try_hwpx_body_def)
  have d: "try_hwpx e path = None"
    if "read_file e path = Inr content" "take 4 content = zip_signature"
      "open_zip e path = Inr archive"
      "read_sections e archive (sort (filter (is_section_entry e) (namelist archive))) = Inl err"
    using that by (simp add: try_hwpx_def try_hwpx_body_def Let_def)
  show ?thesis using a b c d by blast
qed

theorem try_hwpx_never_raises_witness:
  "try_hwpx_body unreadable_env ''doc.hwp'' = Inl (Exn OSError ''No such file or directory'') \<and>
   read_file unreadable_env ''doc.hwp'' = Inl (Exn OSError ''No such file or directory'') \<and>
   try_hwpx unreadable_env ''doc.hwp'' = None \<and>
   take 2 (invoked unreadable_env ''doc.hwp'') = [Hwpx, Pyhwp] \<and>
   read_file container_env ''doc.hwpx'' = Inr [0x50, 0x4B, 0x03, 0x04, 0x14, 0x00] \<and>
   take 4 [0x50, 0x4B, 0x03, 0x04, 0x14, 0x00] = zip_signature \<and>
   open_zip (container_env\<lparr>open_zip := (\<lambda>path. Inl (Exn BadZipFile ''Bad CRC-32''))\<rparr>) ''doc.hwpx''
     = Inl (Exn BadZipFile ''Bad CRC-32'') \<and>
   try_hwpx (container_env\<lparr>open_zip := (\<lambda>path. Inl (Exn BadZipFile ''Bad CRC-32''))\<rparr>)
     ''doc.hwpx'' = None \<and>
   read_sections container_env
     (sample_archive\<lparr>read_entry := (\<lambda>name. Inl (Exn BadZipFile ''Bad CRC-32''))\<rparr>)
     (sort (filter (is_section_entry container_env) (namelist sample_archive)))
     = Inl (Exn BadZipFile ''Bad CRC-32'') \<and>
   try_hwpx
     (container_env\<lparr>open_zip := (\<lambda>path. Inr
        (sample_archive\<lparr>read_entry := (\<lambda>name. Inl (Exn BadZipFile ''Bad CRC-32''))\<rparr>))\<rparr>)
     ''doc.hwpx'' = None"
proof -
  let ?bad = "Exn BadZipFile ''Bad CRC-32''"
  let ?e1 = "container_env\<lparr>open_zip := (\<lambda>path. Inl ?bad)\<rparr>"
  let ?ar = "sample_archive\<lparr>read_entry := (\<lambda>name. Inl ?bad)\<rparr>"
  let ?e2 = "container_env\<lparr>open_zip := (\<lambda>path. Inr ?ar)\<rparr>"
  let ?content = "[0x50, 0x4B, 0x03, 0x04, 0x14, 0x00] :: bytes"
  have 1: "try_hwpx_body unreadable_env ''doc.hwp''
      = Inl (Exn OSError ''No such file or directory'')"
    by (simp add: try_hwpx_body_def unreadable_env_def binary_env_def)
  have 2: "read_file unreadable_env ''doc.hwp'' = Inl (Exn OSError ''No such file or directory'')"
    by (simp add: unreadable_env_def binary_env_def)
  have 3: "has_pyhwp unreadable_env" by (simp add: unreadable_env_def binary_env_def)
  have 4: "read_file container_env ''doc.hwpx'' = Inr ?content"
    "read_file ?e1 ''doc.hwpx'' = Inr ?content" "read_file ?e2 ''doc.hwpx'' = Inr ?content"
    by (simp_all add: container_env_def zip_signature_def)
  have 5: "take 4 ?content = zip_signature" by (simp add: zip_signature_def)
  have 6: "open_zip ?e1 ''doc.hwpx'' = Inl ?bad" "open_zip ?e2 ''doc.hwpx'' = Inr ?ar"
    by simp_all
  have 7: "filter (is_section_entry container_env) (namelist sample_archive)
      = [ustr ''Contents/Section0.xml'']"
    by (simp add: container_env_def sample_archive_def is_section_entry_def startswith_def
        endswith_def ustr_def ascii_lower_def)
  have 8: "read_sections container_env ?ar
      (sort (filter (is_section_entry container_env) (namelist sample_archive))) = Inl ?bad"
    unfolding 7 by (simp add: read_section_def)
  have 9: "read_sections ?e2 ?ar (sort (filter (is_section_entry ?e2) (namelist ?ar))) = Inl ?bad"
    by (simp add: container_env_def sample_archive_def is_section_entry_def startswith_def
        endswith_def ustr_def ascii_lower_def read_section_def)
  show ?thesis
    using try_hwpx_never_raises [of unreadable_env "''doc.hwp''"
        "Exn OSError ''No such file or directory''"]
      try_hwpx_never_raises [of ?e1 "''doc.hwpx''" ?bad ?content]
      try_hwpx_never_raises [of ?e2 "''doc.hwpx''" ?bad ?content ?ar]
      1 2 3 4 5 6 8 9
    by simp
qed


end
